theory Spec2Isabelle
  imports Complex_Main
begin

chapter \<open>The program\<close>

section \<open>Strings\<close>

text \<open>
  A Go string is a sequence of bytes; \<^typ>\<open>string\<close> (a list of 8-bit characters) is
  the same thing. The byte comparisons of the Go library (\<^verbatim>\<open>'0' <= c && c <= '9'\<close>)
  are comparisons of the byte values.
\<close>

definition byte :: "char \<Rightarrow> nat" where
  "byte c = of_char c"

definition is_digit :: "char \<Rightarrow> bool" where
  "is_digit c = (48 \<le> byte c \<and> byte c \<le> 57)"

definition digit_val :: "char \<Rightarrow> nat" where
  "digit_val c = byte c - 48"

definition digit_char :: "nat \<Rightarrow> char" where
  "digit_char d = char_of (48 + d)"

text \<open>
  \<^verbatim>\<open>strings.SplitN(s, sep, n)\<close> and \<^verbatim>\<open>strings.Split(s, sep)\<close>, for a separator of one
  byte (both call sites pass \<^verbatim>\<open>" "\<close>). \<open>cut_at\<close> is \<^verbatim>\<open>strings.Index\<close> followed by the
  two slices \<^verbatim>\<open>s[:m]\<close> and \<^verbatim>\<open>s[m+1:]\<close>; \<open>genSplit\<close> is the loop of the library's
  \<^verbatim>\<open>genSplit\<close>, its last argument the number of cuts still allowed.
\<close>

fun cut_at :: "char \<Rightarrow> string \<Rightarrow> (string \<times> string) option" where
  "cut_at sep [] = None"
| "cut_at sep (c # cs) =
     (if c = sep then Some ([], cs)
      else (case cut_at sep cs of None \<Rightarrow> None | Some (a, b) \<Rightarrow> Some (c # a, b)))"

fun genSplit :: "string \<Rightarrow> char \<Rightarrow> nat \<Rightarrow> string list" where
  "genSplit s sep 0 = [s]"
| "genSplit s sep (Suc k) =
     (case cut_at sep s of None \<Rightarrow> [s] | Some (a, rest) \<Rightarrow> a # genSplit rest sep k)"

definition SplitN :: "string \<Rightarrow> char \<Rightarrow> int \<Rightarrow> string list" where
  "SplitN s sep n =
     (if n = 0 then []
      else let n1 = (if n < 0 then int (count_list s sep) + 1 else n);
               n2 = (if n1 > int (length s) + 1 then int (length s) + 1 else n1)
           in genSplit s sep (nat (n2 - 1)))"

definition Split :: "string \<Rightarrow> char \<Rightarrow> string list" where
  "Split s sep = SplitN s sep (- 1)"

definition HasSuffix :: "string \<Rightarrow> string \<Rightarrow> bool" where
  "HasSuffix s suf = (length suf \<le> length s \<and> drop (length s - length suf) s = suf)"

definition TrimSuffix :: "string \<Rightarrow> string \<Rightarrow> string" where
  "TrimSuffix s suf = (if HasSuffix s suf then take (length s - length suf) s else s)"

section \<open>Timestamps\<close>

text \<open>
  A \<^verbatim>\<open>time.Time\<close> that \<^verbatim>\<open>time.Parse\<close> returns for a layout without a zone is an
  instant in UTC; it is modelled by its calendar fields. The zero value \<^verbatim>\<open>time.Time{}\<close>
  is January 1 of year 1, 00:00:00 UTC.
\<close>

record Time =
  Year :: nat
  Month :: nat
  Day :: nat
  Hour :: nat
  Minute :: nat
  Second :: nat
  Nanosecond :: nat

definition Time_zero :: Time where
  "Time_zero = \<lparr>Year = 1, Month = 1, Day = 1, Hour = 0, Minute = 0, Second = 0, Nanosecond = 0\<rparr>"

definition IsZero :: "Time \<Rightarrow> bool" where
  "IsZero t = (t = Time_zero)"

definition fields :: "Time \<Rightarrow> nat list" where
  "fields t = [Year t, Month t, Day t, Hour t, Minute t, Second t, Nanosecond t]"

fun lex_less :: "nat list \<Rightarrow> nat list \<Rightarrow> bool" where
  "lex_less (x # xs) (y # ys) = (x < y \<or> (x = y \<and> lex_less xs ys))"
| "lex_less _ _ = False"

definition Before :: "Time \<Rightarrow> Time \<Rightarrow> bool" where
  "Before t u = lex_less (fields t) (fields u)"

definition After :: "Time \<Rightarrow> Time \<Rightarrow> bool" where
  "After t u = lex_less (fields u) (fields t)"

subsection \<open>\<^verbatim>\<open>time.Parse\<close> with the layout \<^verbatim>\<open>time.DateTime\<close>\<close>

text \<open>
  \<^verbatim>\<open>time.DateTime\<close> is \<^verbatim>\<open>"2006-01-02 15:04:05"\<close>. The library cuts the layout into the
  chunks \<^verbatim>\<open>2006\<close> (four-digit year), \<^verbatim>\<open>-\<close>, \<^verbatim>\<open>01\<close> (two-digit month), \<^verbatim>\<open>-\<close>,
  \<^verbatim>\<open>02\<close> (two-digit day), a space, \<^verbatim>\<open>15\<close> (hour), \<^verbatim>\<open>:\<close>, \<^verbatim>\<open>04\<close> (two-digit minute),
  \<^verbatim>\<open>:\<close>, \<^verbatim>\<open>05\<close> (two-digit second) and reads the value chunk by chunk. The helpers
  below are the library's \<^verbatim>\<open>isDigit\<close>, \<^verbatim>\<open>getnum\<close>, \<^verbatim>\<open>cutspace\<close>, \<^verbatim>\<open>skip\<close>,
  \<^verbatim>\<open>leadingInt\<close>, \<^verbatim>\<open>atoi\<close>, \<^verbatim>\<open>commaOrPeriod\<close>, \<^verbatim>\<open>parseNanoseconds\<close>, \<^verbatim>\<open>isLeap\<close> and
  \<^verbatim>\<open>daysIn\<close>. An error of the library is \<open>None\<close>.
\<close>

definition isDigit :: "string \<Rightarrow> nat \<Rightarrow> bool" where
  "isDigit s i = (i < length s \<and> is_digit (s ! i))"

definition getnum :: "string \<Rightarrow> bool \<Rightarrow> (nat \<times> string) option" where
  "getnum s fixed =
     (if \<not> isDigit s 0 then None
      else if \<not> isDigit s 1 then
        (if fixed then None else Some (digit_val (s ! 0), drop 1 s))
      else Some (digit_val (s ! 0) * 10 + digit_val (s ! 1), drop 2 s))"

fun cutspace :: "string \<Rightarrow> string" where
  "cutspace [] = []"
| "cutspace (c # cs) = (if c = CHR '' '' then cutspace cs else c # cs)"

function skip :: "string \<Rightarrow> string \<Rightarrow> string option" where
  "skip v [] = Some v"
| "skip v (p # ps) =
     (if p = CHR '' '' then
        (if v \<noteq> [] \<and> hd v \<noteq> CHR '' '' then None
         else skip (cutspace v) (cutspace ps))
      else (case v of [] \<Rightarrow> None
            | x # xs \<Rightarrow> if x \<noteq> p then None else skip xs ps))"
  by pat_completeness auto
termination
proof (relation "measure (\<lambda>(v, p). length p)")
  have le: "length (cutspace s) \<le> length s" for s
    by (induction s) auto
  fix v :: string and p :: char and ps :: string
  show "((cutspace v, cutspace ps), (v, p # ps)) \<in> measure (\<lambda>(v, p). length p)"
    using le [of ps] by simp
qed auto

text \<open>
  \<^verbatim>\<open>leadingInt\<close> reads the leading decimal digits. Its guard against overflowing 64 bits
  is left out: both callers pass at most nine bytes. \<^verbatim>\<open>atoi\<close> also accepts a leading
  sign; both callers pass a string that starts with a digit, so the branch is left out.
\<close>

fun leadingInt :: "nat \<Rightarrow> string \<Rightarrow> nat \<times> string" where
  "leadingInt x [] = (x, [])"
| "leadingInt x (c # cs) =
     (if is_digit c then leadingInt (x * 10 + digit_val c) cs else (x, c # cs))"

definition atoi :: "string \<Rightarrow> nat option" where
  "atoi s = (case leadingInt 0 s of (q, r) \<Rightarrow> if r \<noteq> [] then None else Some q)"

definition commaOrPeriod :: "char \<Rightarrow> bool" where
  "commaOrPeriod c = (c = CHR ''.'' \<or> c = CHR '','')"

definition parseNanoseconds :: "string \<Rightarrow> nat \<Rightarrow> nat option" where
  "parseNanoseconds v nbytes =
     (if v = [] \<or> \<not> commaOrPeriod (hd v) then None
      else let nb = (if nbytes > 10 then 10 else nbytes);
               v' = (if nbytes > 10 then take 10 v else v)
           in (case atoi (take (nb - 1) (drop 1 v')) of
                 None \<Rightarrow> None
               | Some ns \<Rightarrow> Some (ns * 10 ^ (10 - nb))))"

fun digit_run :: "string \<Rightarrow> nat" where
  "digit_run [] = 0"
| "digit_run (c # cs) = (if is_digit c then Suc (digit_run cs) else 0)"

definition isLeap :: "nat \<Rightarrow> bool" where
  "isLeap y = (y mod 4 = 0 \<and> (y mod 100 \<noteq> 0 \<or> y mod 400 = 0))"

definition daysIn :: "nat \<Rightarrow> nat \<Rightarrow> nat" where
  "daysIn m y =
     (if m = 2 \<and> isLeap y then 29
      else [31, 28, 31, 30, 31, 30, 31, 31, 30, 31, 30, 31] ! (m - 1))"

text \<open>
  After the seconds the library looks for a fractional second that the layout does not
  have: a comma or a period followed by a digit. It reads all the digits that follow and
  keeps the first nine as nanoseconds.
\<close>

definition Parse_fraction :: "string \<Rightarrow> (nat \<times> string) option" where
  "Parse_fraction v =
     (if length v \<ge> 2 \<and> commaOrPeriod (v ! 0) \<and> isDigit v 1 then
        (let n = 2 + digit_run (drop 2 v) in
         case parseNanoseconds v n of None \<Rightarrow> None | Some ns \<Rightarrow> Some (ns, drop n v))
      else Some (0, v))"

text \<open>The chunks \<^verbatim>\<open>2006-01-02\<close>: year, month (checked against 1..12 at once) and day.\<close>

definition Parse_date :: "string \<Rightarrow> ((nat \<times> nat \<times> nat) \<times> string) option" where
  "Parse_date v0 =
     (if length v0 < 4 \<or> \<not> isDigit v0 0 then None
      else Option.bind (atoi (take 4 v0)) (\<lambda>year.
           Option.bind (skip (drop 4 v0) ''-'') (\<lambda>v1.
           Option.bind (getnum v1 True) (\<lambda>(month, v2).
           if month \<le> 0 \<or> 12 < month then None
           else Option.bind (skip v2 ''-'') (\<lambda>v3.
                Option.bind (getnum v3 True) (\<lambda>(day, v4).
                Some ((year, month, day), v4)))))))"

text \<open>
  The chunks \<^verbatim>\<open> 15:04:05\<close>. The hour chunk \<^verbatim>\<open>15\<close> is read with
  \<^verbatim>\<open>getnum(value, false)\<close>: one digit or two. Minute and second need two digits.
\<close>

definition Parse_clock :: "string \<Rightarrow> ((nat \<times> nat \<times> nat \<times> nat) \<times> string) option" where
  "Parse_clock v4 =
     Option.bind (skip v4 '' '') (\<lambda>v5.
     Option.bind (getnum v5 False) (\<lambda>(hour, v6).
     if 24 \<le> hour then None
     else Option.bind (skip v6 '':'') (\<lambda>v7.
          Option.bind (getnum v7 True) (\<lambda>(minute, v8).
          if 60 \<le> minute then None
          else Option.bind (skip v8 '':'') (\<lambda>v9.
               Option.bind (getnum v9 True) (\<lambda>(sec, v10).
               if 60 \<le> sec then None
               else Option.bind (Parse_fraction v10) (\<lambda>(nsec, v11).
                    Some ((hour, minute, sec, nsec), v11))))))))"

text \<open>
  The whole of \<^verbatim>\<open>time.Parse(time.DateTime, value)\<close>: text left over is an error, and the
  day is checked against the length of the month last.
\<close>

definition Parse :: "string \<Rightarrow> Time option" where
  "Parse v0 =
     Option.bind (Parse_date v0) (\<lambda>((year, month, day), v4).
     Option.bind (Parse_clock v4) (\<lambda>((hour, minute, sec, nsec), v11).
     if v11 \<noteq> [] then None
     else if day < 1 \<or> day > daysIn month year then None
     else Some \<lparr>Year = year, Month = month, Day = day, Hour = hour,
                 Minute = minute, Second = sec, Nanosecond = nsec\<rparr>))"

subsection \<open>\<^verbatim>\<open>Time.Format\<close> with the layout \<^verbatim>\<open>time.DateTime\<close>\<close>

text \<open>
  \<open>digits\<close> is the decimal numeral of a number; \<^verbatim>\<open>appendInt(b, x, width)\<close> pads it with
  zeros on the left up to \<open>width\<close>. The layout prints the year with width 4 and the other
  five fields with width 2.
\<close>

fun digits :: "nat \<Rightarrow> string" where
  "digits n = (if n < 10 then [digit_char n] else digits (n div 10) @ [digit_char (n mod 10)])"

declare digits.simps [simp del]

definition appendInt :: "nat \<Rightarrow> nat \<Rightarrow> string" where
  "appendInt x width = replicate (width - length (digits x)) (CHR ''0'') @ digits x"

definition Format :: "Time \<Rightarrow> string" where
  "Format t =
     appendInt (Year t) 4 @ ''-'' @ appendInt (Month t) 2 @ ''-'' @ appendInt (Day t) 2 @ '' '' @
     appendInt (Hour t) 2 @ '':'' @ appendInt (Minute t) 2 @ '':'' @ appendInt (Second t) 2"

section \<open>Log entries\<close>

record LogEntry =
  time :: Time
  level :: string
  message :: string

text \<open>The zero value \<^verbatim>\<open>LogEntry{}\<close>.\<close>

definition LogEntry_zero :: LogEntry where
  "LogEntry_zero = \<lparr>time = Time_zero, level = [], message = []\<rparr>"

text \<open>
  The two errors of \<^verbatim>\<open>NewLogEntry\<close>: \<^verbatim>\<open>"invalid log entry"\<close> and
  \<^verbatim>\<open>"invalid log time: ..."\<close> (which wraps the error of \<^verbatim>\<open>time.Parse\<close>).
\<close>

datatype error = InvalidLogEntry | InvalidLogTime

text \<open>
  \<^verbatim>\<open>NewLogEntry\<close> returns a pair \<^verbatim>\<open>(LogEntry, error)\<close>; the error is \<open>None\<close> for
  \<^verbatim>\<open>nil\<close>.
\<close>

definition NewLogEntry :: "string \<Rightarrow> LogEntry \<times> error option" where
  "NewLogEntry line =
     (let logLine = SplitN line (CHR '' '') 4 in
      if length logLine < 4 then (LogEntry_zero, Some InvalidLogEntry)
      else
        let logDate = logLine ! 0; logTime = logLine ! 1; lvl = logLine ! 2; msg = logLine ! 3 in
        case Parse (logDate @ '' '' @ logTime) of
          None \<Rightarrow> (LogEntry_zero, Some InvalidLogTime)
        | Some t \<Rightarrow> (\<lparr>time = t, level = lvl, message = msg\<rparr>, None))"

text \<open>
  \<^verbatim>\<open>ReadFile\<close>. Its argument is the sequence of lines that the \<^verbatim>\<open>bufio.Scanner\<close> yields
  for the file. It returns the slice of entries; the second component is what
  \<^verbatim>\<open>log.Println\<close> was called with, in order. The loop body appends \<^verbatim>\<open>entry\<close> after the
  \<^verbatim>\<open>if err != nil\<close> block, whatever \<^verbatim>\<open>err\<close> was.
\<close>

fun ReadFile_loop :: "string list \<Rightarrow> LogEntry list \<Rightarrow> error list \<Rightarrow> LogEntry list \<times> error list" where
  "ReadFile_loop [] entries logged = (entries, logged)"
| "ReadFile_loop (line # rest) entries logged =
     (case NewLogEntry line of
        (entry, err) \<Rightarrow>
          ReadFile_loop rest (entries @ [entry])
            (case err of None \<Rightarrow> logged | Some e \<Rightarrow> logged @ [e]))"

definition ReadFile :: "string list \<Rightarrow> LogEntry list \<times> error list" where
  "ReadFile lines = ReadFile_loop lines [] []"

section \<open>Floating-point numbers\<close>

text \<open>
  A \<^verbatim>\<open>float64\<close> is an IEEE 754 binary64 number. \<open>Finite s m e\<close> is the number
  \<open>(-1)\<^sup>s * m * 2\<^sup>e\<close> with \<open>m < 2\<^sup>5\<^sup>3\<close> and \<open>-1074 \<le> e \<le> 971\<close>, written so that
  \<open>2\<^sup>5\<^sup>2 \<le> m\<close> unless \<open>e = -1074\<close> (the subnormal numbers and the two zeros).
\<close>

datatype float64 = Finite bool int int | Infinity bool | NaN

fun bit_length :: "int \<Rightarrow> int" where
  "bit_length n = (if n \<le> 0 then 0 else 1 + bit_length (n div 2))"

declare bit_length.simps [simp del]

text \<open>\<open>round_half_even n d\<close> is the integer nearest to \<open>n / d\<close>, ties to the even one.\<close>

definition round_half_even :: "int \<Rightarrow> int \<Rightarrow> int" where
  "round_half_even n d =
     (let q = n div d; r = n mod d in
      if 2 * r > d \<or> (2 * r = d \<and> q mod 2 = 1) then q + 1 else q)"

text \<open>
  \<open>round_float64 s n d e\<close> is the \<^verbatim>\<open>float64\<close> nearest to \<open>(-1)\<^sup>s * (n / d) * 2\<^sup>e\<close> for
  \<open>0 \<le> n\<close> and \<open>0 < d\<close>, ties to even; a number too large is the infinity.
\<close>

definition scaled :: "int \<Rightarrow> int \<Rightarrow> int \<Rightarrow> int \<times> int" where
  "scaled n d s = (if 0 \<le> s then (n * 2 ^ nat s, d) else (n, d * 2 ^ nat (- s)))"

definition round_float64 :: "bool \<Rightarrow> int \<Rightarrow> int \<Rightarrow> int \<Rightarrow> float64" where
  "round_float64 s n d e =
     (if n = 0 then Finite s 0 (- 1074)
      else
        let q0 = max (bit_length n - bit_length d + e - 53) (- 1074);
            (n0, d0) = scaled n d (e - q0);
            q1 = (if n0 div d0 \<ge> 2 ^ 53 then q0 + 1 else q0);
            (n1, d1) = scaled n d (e - q1);
            m = round_half_even n1 d1;
            (m2, q2) = (if m = 2 ^ 53 then (2 ^ 52, q1 + 1) else (m, q1))
        in if q2 > 971 then Infinity s else Finite s m2 q2)"

definition float64_of_int :: "int \<Rightarrow> float64" where
  "float64_of_int i = round_float64 (i < 0) \<bar>i\<bar> 1 0"

text \<open>
  Addition and division of IEEE 754, rounding to nearest, ties to even. A sum of two
  zeros is \<open>-0\<close> only when both are; a zero added to another number leaves it as it is;
  two numbers that cancel give \<open>+0\<close>.
\<close>

fun fadd :: "float64 \<Rightarrow> float64 \<Rightarrow> float64" where
  "fadd NaN _ = NaN"
| "fadd _ NaN = NaN"
| "fadd (Infinity s) (Infinity t) = (if s = t then Infinity s else NaN)"
| "fadd (Infinity s) _ = Infinity s"
| "fadd _ (Infinity t) = Infinity t"
| "fadd (Finite s m e) (Finite t n f) =
     (if m = 0 \<and> n = 0 then Finite (s \<and> t) 0 (- 1074)
      else if m = 0 then Finite t n f
      else if n = 0 then Finite s m e
      else
        let g = min e f;
            a = (if s then - 1 else 1) * m * 2 ^ nat (e - g);
            b = (if t then - 1 else 1) * n * 2 ^ nat (f - g);
            c = a + b
        in if c = 0 then Finite False 0 (- 1074)
           else round_float64 (c < 0) \<bar>c\<bar> 1 g)"

fun fdiv :: "float64 \<Rightarrow> float64 \<Rightarrow> float64" where
  "fdiv NaN _ = NaN"
| "fdiv _ NaN = NaN"
| "fdiv (Infinity s) (Infinity t) = NaN"
| "fdiv (Infinity s) (Finite t n f) = Infinity (s \<noteq> t)"
| "fdiv (Finite s m e) (Infinity t) = Finite (s \<noteq> t) 0 (- 1074)"
| "fdiv (Finite s m e) (Finite t n f) =
     (if n = 0 then (if m = 0 then NaN else Infinity (s \<noteq> t))
      else round_float64 (s \<noteq> t) m n (e - f))"

text \<open>
  \<^verbatim>\<open>fmt.Printf("%.2f", x)\<close>: the exact value of \<open>x\<close> rounded to two decimals, ties to
  even, with a minus sign when the sign bit is set; the infinities print as \<^verbatim>\<open>+Inf\<close> and
  \<^verbatim>\<open>-Inf\<close>, a NaN as \<^verbatim>\<open>NaN\<close>.
\<close>

definition format_f2 :: "float64 \<Rightarrow> string" where
  "format_f2 x =
     (case x of
        NaN \<Rightarrow> ''NaN''
      | Infinity s \<Rightarrow> (if s then ''-Inf'' else ''+Inf'')
      | Finite s m e \<Rightarrow>
          (let (n, d) = scaled (m * 100) 1 e;
               h = round_half_even n d
           in (if s then ''-'' else '''') @ digits (nat (h div 100)) @ ''.'' @ appendInt (nat (h mod 100)) 2))"

section \<open>\<^verbatim>\<open>strconv.ParseFloat(s, 64)\<close>\<close>

text \<open>
  The library's \<^verbatim>\<open>lower(c)\<close> is \<^verbatim>\<open>c | ('x' - 'X')\<close>: it sets bit 5 of the byte.
\<close>

definition lower :: "char \<Rightarrow> nat" where
  "lower c = (if (byte c div 32) mod 2 = 0 then byte c + 32 else byte c)"

definition is_hex_letter :: "char \<Rightarrow> bool" where
  "is_hex_letter c = (97 \<le> lower c \<and> lower c \<le> 102)"

text \<open>
  \<^verbatim>\<open>commonPrefixLenIgnoreCase(s, prefix)\<close>, for a \<open>prefix\<close> in lower case: upper-case
  ASCII letters of \<open>s\<close> are lowered before the comparison.
\<close>

fun commonPrefixLenIgnoreCase :: "string \<Rightarrow> string \<Rightarrow> nat" where
  "commonPrefixLenIgnoreCase (c # cs) (p # ps) =
     (if (if 65 \<le> byte c \<and> byte c \<le> 90 then byte c + 32 else byte c) = byte p
      then Suc (commonPrefixLenIgnoreCase cs ps) else 0)"
| "commonPrefixLenIgnoreCase _ _ = 0"

text \<open>
  \<^verbatim>\<open>special\<close> recognises \<^verbatim>\<open>inf\<close>, \<^verbatim>\<open>infinity\<close> (with an optional sign) and \<^verbatim>\<open>nan\<close>
  at the start of the string, in any case, and returns the value and the number of bytes
  it read.
\<close>

definition special_inf :: "bool \<Rightarrow> nat \<Rightarrow> string \<Rightarrow> (float64 \<times> nat) option" where
  "special_inf neg nsign s =
     (let n0 = commonPrefixLenIgnoreCase s ''infinity'';
          n = (if 3 < n0 \<and> n0 < 8 then 3 else n0)
      in if n = 3 \<or> n = 8 then Some (Infinity neg, nsign + n) else None)"

definition special :: "string \<Rightarrow> (float64 \<times> nat) option" where
  "special s =
     (case s of
        [] \<Rightarrow> None
      | c # cs \<Rightarrow>
          if c = CHR ''+'' \<or> c = CHR ''-'' then special_inf (c = CHR ''-'') 1 cs
          else if c = CHR ''i'' \<or> c = CHR ''I'' then special_inf False 0 s
          else if c = CHR ''n'' \<or> c = CHR ''N'' then
            (if commonPrefixLenIgnoreCase s ''nan'' = 3 then Some (NaN, 3) else None)
          else None)"

text \<open>
  \<^verbatim>\<open>readFloat\<close>. The library keeps the first 19 digits of the mantissa in a \<^verbatim>\<open>uint64\<close>
  and a flag for digits cut off, and its conversions compute from them the nearest
  \<^verbatim>\<open>float64\<close> of the number as written; the model keeps all the digits (\<open>mant\<close>) and
  rounds once. \<open>nd\<close> counts the digits after the leading zeros, \<open>dp\<close> is the position of
  the decimal point.
\<close>

record readFloat_state =
  sawdot :: bool
  sawdigits :: bool
  nd :: int
  dp :: int
  mant :: int
  underscores :: bool

fun mantissa_loop :: "int \<Rightarrow> readFloat_state \<Rightarrow> string \<Rightarrow> readFloat_state \<times> string" where
  "mantissa_loop base st [] = (st, [])"
| "mantissa_loop base st (c # cs) =
     (if c = CHR ''_'' then mantissa_loop base (st\<lparr>underscores := True\<rparr>) cs
      else if c = CHR ''.'' then
        (if sawdot st then (st, c # cs)
         else mantissa_loop base (st\<lparr>sawdot := True, dp := nd st\<rparr>) cs)
      else if is_digit c then
        (if c = CHR ''0'' \<and> nd st = 0
         then mantissa_loop base (st\<lparr>sawdigits := True, dp := dp st - 1\<rparr>) cs
         else mantissa_loop base
                (st\<lparr>sawdigits := True, nd := nd st + 1,
                    mant := mant st * base + int (digit_val c)\<rparr>) cs)
      else if base = 16 \<and> is_hex_letter c then
        mantissa_loop base
          (st\<lparr>sawdigits := True, nd := nd st + 1,
              mant := mant st * 16 + (int (lower c) - 97 + 10)\<rparr>) cs
      else (st, c # cs))"

fun exponent_loop :: "int \<Rightarrow> bool \<Rightarrow> string \<Rightarrow> int \<times> bool \<times> string" where
  "exponent_loop e u [] = (e, u, [])"
| "exponent_loop e u (c # cs) =
     (if c = CHR ''_'' then exponent_loop e True cs
      else if is_digit c then
        exponent_loop (if e < 10000 then e * 10 + int (digit_val c) else e) u cs
      else (e, u, c # cs))"

text \<open>
  The optional exponent: \<open>None\<close> is a syntax error, otherwise the signed exponent,
  whether an underscore was read, and the rest of the string. A hexadecimal mantissa must
  have an exponent.
\<close>

definition read_exponent :: "int \<Rightarrow> string \<Rightarrow> (int \<times> bool \<times> string) option" where
  "read_exponent base s =
     (if s \<noteq> [] \<and> lower (hd s) = (if base = 16 then 112 else 101) then
        (case tl s of
           [] \<Rightarrow> None
         | c1 # cs1 \<Rightarrow>
             let esign = (if c1 = CHR ''-'' then - 1 else 1);
                 r = (if c1 = CHR ''+'' \<or> c1 = CHR ''-'' then cs1 else c1 # cs1)
             in if r = [] \<or> \<not> is_digit (hd r) then None
                else (case exponent_loop 0 False r of (e, u, rest) \<Rightarrow> Some (e * esign, u, rest)))
      else if base = 16 then None
      else Some (0, False, s))"

datatype saw = Saw_start | Saw_digit | Saw_underscore | Saw_other

fun underscore_loop :: "bool \<Rightarrow> saw \<Rightarrow> string \<Rightarrow> bool" where
  "underscore_loop hex sw [] = (sw \<noteq> Saw_underscore)"
| "underscore_loop hex sw (c # cs) =
     (if is_digit c \<or> (hex \<and> is_hex_letter c) then underscore_loop hex Saw_digit cs
      else if c = CHR ''_'' then
        (if sw \<noteq> Saw_digit then False else underscore_loop hex Saw_underscore cs)
      else if sw = Saw_underscore then False
      else underscore_loop hex Saw_other cs)"

definition underscoreOK :: "string \<Rightarrow> bool" where
  "underscoreOK s0 =
     (let s = (if s0 \<noteq> [] \<and> (hd s0 = CHR ''-'' \<or> hd s0 = CHR ''+'') then tl s0 else s0)
      in if length s \<ge> 2 \<and> s ! 0 = CHR ''0'' \<and>
            (lower (s ! 1) = 98 \<or> lower (s ! 1) = 111 \<or> lower (s ! 1) = 120)
         then underscore_loop (lower (s ! 1) = 120) Saw_digit (drop 2 s)
         else underscore_loop False Saw_start s)"

text \<open>
  \<open>readFloat s\<close> is \<open>None\<close> for a syntax error; otherwise the sign, whether the number is
  hexadecimal, the mantissa \<open>m\<close> and the exponent \<open>x\<close> (the number read is \<open>m * 10\<^sup>x\<close>, or
  \<open>m * 2\<^sup>x\<close> when hexadecimal), and the rest of the string that was not read.
\<close>

definition readFloat :: "string \<Rightarrow> (bool \<times> bool \<times> int \<times> int \<times> string) option" where
  "readFloat s =
     (if s = [] then None
      else
        let neg = (hd s = CHR ''-'');
            s1 = (if hd s = CHR ''+'' \<or> hd s = CHR ''-'' then tl s else s);
            hex = (length s1 > 2 \<and> s1 ! 0 = CHR ''0'' \<and> lower (s1 ! 1) = 120);
            base = (if hex then 16 else 10);
            s2 = (if hex then drop 2 s1 else s1)
        in (case mantissa_loop base
                   \<lparr>sawdot = False, sawdigits = False, nd = 0, dp = 0, mant = 0,
                    underscores = False\<rparr> s2 of
              (st, s3) \<Rightarrow>
                if \<not> sawdigits st then None
                else
                  let dp1 = (if sawdot st then dp st else nd st);
                      dp2 = (if hex then dp1 * 4 else dp1);
                      ndm = (if hex then nd st * 4 else nd st)
                  in (case read_exponent base s3 of
                        None \<Rightarrow> None
                      | Some (e, u, rest) \<Rightarrow>
                          if (underscores st \<or> u) \<and>
                             \<not> underscoreOK (take (length s - length rest) s)
                          then None
                          else Some (neg, hex, mant st, dp2 + e - ndm, rest))))"

text \<open>
  The conversion of the number read. A result that overflows is the range error of the
  library.
\<close>

definition atof64 :: "bool \<Rightarrow> bool \<Rightarrow> int \<Rightarrow> int \<Rightarrow> float64" where
  "atof64 neg hex m x =
     (if hex then round_float64 neg m 1 x
      else if 0 \<le> x then round_float64 neg (m * 10 ^ nat x) 1 0
      else round_float64 neg m (10 ^ nat (- x)) 0)"

definition ParseFloat :: "string \<Rightarrow> float64 option" where
  "ParseFloat s =
     (case special s of
        Some (f, n) \<Rightarrow> if n \<noteq> length s then None else Some f
      | None \<Rightarrow>
          (case readFloat s of
             None \<Rightarrow> None
           | Some (neg, hex, m, x, rest) \<Rightarrow>
               if rest \<noteq> [] then None
               else (case atof64 neg hex m x of
                       Infinity _ \<Rightarrow> None
                     | f \<Rightarrow> Some f)))"

section \<open>The report\<close>

text \<open>
  \<^verbatim>\<open>strings.ToLower\<close>. A string of ASCII bytes only is lowered byte by byte. Any other
  string goes through \<^verbatim>\<open>strings.Map(unicode.ToLower, s)\<close>, which depends on the Unicode
  tables; that function is the parameter \<open>ul\<close> of the model.
\<close>

definition ascii_lower :: "char \<Rightarrow> char" where
  "ascii_lower c = (if 65 \<le> byte c \<and> byte c \<le> 90 then char_of (byte c + 32) else c)"

definition ToLower :: "(string \<Rightarrow> string) \<Rightarrow> string \<Rightarrow> string" where
  "ToLower ul s = (if list_all (\<lambda>c. byte c < 128) s then map ascii_lower s else ul s)"

text \<open>
  The report. A Go \<^verbatim>\<open>int\<close> is modelled by \<^typ>\<open>int\<close>: each counter grows by at most one per
  entry, and a slice cannot hold as many entries as it takes to overflow the machine
  integer. \<^verbatim>\<open>MsgFrequency\<close> is \<open>None\<close> for the nil map of the zero value
  \<^verbatim>\<open>AnalysisReport{}\<close>.
\<close>

record AnalysisReport =
  TotalEntries :: int
  Info :: int
  Warn :: int
  Error :: int
  Debug :: int
  ResponseTime :: "float64 list"
  MsgFrequency :: "(string \<rightharpoonup> int) option"

datatype panic = NilMapAssignment | IndexOutOfRange int nat

text \<open>The report that \<^verbatim>\<open>Analyze\<close> starts from: all zero, with an allocated, empty map.\<close>

definition new_report :: AnalysisReport where
  "new_report =
     \<lparr>TotalEntries = 0, Info = 0, Warn = 0, Error = 0, Debug = 0, ResponseTime = [],
      MsgFrequency = Some Map.empty\<rparr>"

text \<open>The \<^verbatim>\<open>switch\<close> on the lowered level.\<close>

definition count_level :: "(string \<Rightarrow> string) \<Rightarrow> LogEntry \<Rightarrow> AnalysisReport \<Rightarrow> AnalysisReport" where
  "count_level ul entry report =
     (let lv = ToLower ul (level entry) in
      if lv = ''info'' then report\<lparr>Info := Info report + 1\<rparr>
      else if lv = ''warn'' then report\<lparr>Warn := Warn report + 1\<rparr>
      else if lv = ''error'' then report\<lparr>Error := Error report + 1\<rparr>
      else if lv = ''debug'' then report\<lparr>Debug := Debug report + 1\<rparr>
      else report)"

text \<open>
  The response time. \<^verbatim>\<open>words[len(words)-1]\<close> is \<open>last words\<close>: \<^verbatim>\<open>strings.Split\<close> never
  returns an empty slice (lemma \<open>Split_not_Nil\<close> below).
\<close>

definition record_response_time :: "LogEntry \<Rightarrow> AnalysisReport \<Rightarrow> AnalysisReport" where
  "record_response_time entry report =
     (if HasSuffix (message entry) ''ms'' then
        (let words = Split (TrimSuffix (message entry) '' ms'') (CHR '' '');
             respTime = last words
         in case ParseFloat respTime of
              Some n \<Rightarrow> report\<lparr>ResponseTime := ResponseTime report @ [n]\<rparr>
            | None \<Rightarrow> report)
      else report)"

text \<open>
  \<^verbatim>\<open>report.MsgFrequency[entry.message]++\<close>: a key that is missing reads as 0; writing to
  the nil map panics.
\<close>

definition count_message :: "LogEntry \<Rightarrow> AnalysisReport \<Rightarrow> panic + AnalysisReport" where
  "count_message entry report =
     (case MsgFrequency report of
        None \<Rightarrow> Inl NilMapAssignment
      | Some m \<Rightarrow>
          Inr (report\<lparr>MsgFrequency :=
                 Some (m(message entry \<mapsto> (case m (message entry) of None \<Rightarrow> 0 | Some c \<Rightarrow> c) + 1))\<rparr>))"

definition Add :: "(string \<Rightarrow> string) \<Rightarrow> AnalysisReport \<Rightarrow> LogEntry \<Rightarrow> panic + AnalysisReport" where
  "Add ul report entry =
     count_message entry
       (record_response_time entry
         (count_level ul entry (report\<lparr>TotalEntries := TotalEntries report + 1\<rparr>)))"

subsection \<open>\<^verbatim>\<open>Analyze\<close>\<close>

type_synonym FilterFunc = "LogEntry \<Rightarrow> bool"

text \<open>
  The inner loop of \<^verbatim>\<open>Analyze\<close>: \<^verbatim>\<open>for _, skip := range filter { if skip(entry) { continue } }\<close>.
  The \<^verbatim>\<open>continue\<close> has no label, so it continues this loop, the innermost one: whether
  \<^verbatim>\<open>skip(entry)\<close> holds or not, control goes on to the next filter, and after the last
  one falls out of the loop to \<^verbatim>\<open>report.Add(entry)\<close>. The loop changes no variable; the
  model threads the report through it to show that.
\<close>

fun filter_loop :: "FilterFunc list \<Rightarrow> LogEntry \<Rightarrow> AnalysisReport \<Rightarrow> AnalysisReport" where
  "filter_loop [] entry report = report"
| "filter_loop (skip_fn # rest) entry report =
     (if skip_fn entry then filter_loop rest entry report
      else filter_loop rest entry report)"

fun Analyze_loop ::
  "(string \<Rightarrow> string) \<Rightarrow> LogEntry list \<Rightarrow> FilterFunc list \<Rightarrow> AnalysisReport \<Rightarrow> panic + AnalysisReport" where
  "Analyze_loop ul [] flt report = Inr report"
| "Analyze_loop ul (entry # entries) flt report =
     (case Add ul (filter_loop flt entry report) entry of
        Inl p \<Rightarrow> Inl p
      | Inr report' \<Rightarrow> Analyze_loop ul entries flt report')"

definition Analyze :: "(string \<Rightarrow> string) \<Rightarrow> LogEntry list \<Rightarrow> FilterFunc list \<Rightarrow> panic + AnalysisReport" where
  "Analyze ul entries flt = Analyze_loop ul entries flt new_report"

text \<open>
  The three filters that \<^verbatim>\<open>main\<close> builds from the flags: the set of levels, the start
  time and the end time (the zero time when the flag is not given).
\<close>

definition main_filter :: "(string \<Rightarrow> string) \<Rightarrow> string set \<Rightarrow> Time \<Rightarrow> Time \<Rightarrow> FilterFunc list" where
  "main_filter ul levels startTime endTime =
     [\<lambda>entry. ToLower ul (level entry) \<notin> levels,
      \<lambda>entry. if \<not> IsZero startTime \<and> Before (time entry) startTime then True else False,
      \<lambda>entry. if \<not> IsZero endTime \<and> After (time entry) endTime then True else False]"

subsection \<open>\<^verbatim>\<open>Print\<close>\<close>

text \<open>\<^verbatim>\<open>%d\<close> of an \<^verbatim>\<open>int\<close>.\<close>

definition format_d :: "int \<Rightarrow> string" where
  "format_d i = (if i < 0 then ''-'' @ digits (nat (- i)) else digits (nat i))"

text \<open>The loop \<^verbatim>\<open>for _, v := range r.ResponseTime { total += v }\<close>.\<close>

fun total_loop :: "float64 \<Rightarrow> float64 list \<Rightarrow> float64" where
  "total_loop tot [] = tot"
| "total_loop tot (v # vs) = total_loop (fadd tot v) vs"

text \<open>
  The value of \<^verbatim>\<open>avg\<close>: \<^verbatim>\<open>var total float64\<close> starts at \<open>+0\<close>, the loop adds the samples
  to it in order, and \<^verbatim>\<open>avg := total / float64(len(r.ResponseTime))\<close>.
\<close>

definition average :: "float64 list \<Rightarrow> float64" where
  "average vs = fdiv (total_loop (Finite False 0 (- 1074)) vs) (float64_of_int (int (length vs)))"

text \<open>What the \<^verbatim>\<open>if len(r.ResponseTime) > 0\<close> block writes.\<close>

definition print_average :: "AnalysisReport \<Rightarrow> string list" where
  "print_average r =
     (if length (ResponseTime r) > 0 then
        (let avg = average (ResponseTime r)
         in [''Average Response Time: '' @ format_f2 avg @ '' ms'' @ [CHR 0x0A]])
      else [])"

text \<open>
  A \<^verbatim>\<open>range\<close> over a map visits every key once, in an order that Go leaves open. The
  two loops over \<^verbatim>\<open>r.MsgFrequency\<close> take the order of their keys as the arguments \<open>ks1\<close>
  and \<open>ks2\<close>. Reading the map at a key gives 0 when the key is missing or the map is nil.
\<close>

definition map_get :: "(string \<rightharpoonup> int) option \<Rightarrow> string \<Rightarrow> int" where
  "map_get m k = (case m of None \<Rightarrow> 0 | Some f \<Rightarrow> (case f k of None \<Rightarrow> 0 | Some v \<Rightarrow> v))"

definition map_keys :: "(string \<rightharpoonup> int) option \<Rightarrow> string set" where
  "map_keys m = (case m of None \<Rightarrow> {} | Some f \<Rightarrow> dom f)"

text \<open>An order in which a \<^verbatim>\<open>range\<close> loop can visit the keys of the map.\<close>

definition range_order :: "(string \<rightharpoonup> int) option \<Rightarrow> string list \<Rightarrow> bool" where
  "range_order m ks = (distinct ks \<and> set ks = map_keys m)"

fun freqCount_loop :: "(string \<rightharpoonup> int) option \<Rightarrow> string list \<Rightarrow> int list \<Rightarrow> int list" where
  "freqCount_loop m [] freqCount = freqCount"
| "freqCount_loop m (k # ks) freqCount = freqCount_loop m ks (freqCount @ [map_get m k])"

text \<open>
  The second loop. Its body evaluates \<^verbatim>\<open>freqCount[len(freqCount)-1]\<close>, which panics when
  \<^verbatim>\<open>freqCount\<close> is empty.
\<close>

fun freqMsg_loop :: "(string \<rightharpoonup> int) option \<Rightarrow> int list \<Rightarrow> string list \<Rightarrow> string \<Rightarrow> panic + string" where
  "freqMsg_loop m freqCount [] freqMsg = Inr freqMsg"
| "freqMsg_loop m freqCount (k # ks) freqMsg =
     (if int (length freqCount) - 1 < 0 \<or> int (length freqCount) - 1 \<ge> int (length freqCount)
      then Inl (IndexOutOfRange (int (length freqCount) - 1) (length freqCount))
      else if map_get m k = freqCount ! (length freqCount - 1)
           then freqMsg_loop m freqCount ks k
           else freqMsg_loop m freqCount ks freqMsg)"

definition most_frequent :: "string list \<Rightarrow> string list \<Rightarrow> AnalysisReport \<Rightarrow> panic + string" where
  "most_frequent ks1 ks2 r =
     (let freqCount = sort (freqCount_loop (MsgFrequency r) ks1 [])
      in freqMsg_loop (MsgFrequency r) freqCount ks2 [])"

text \<open>
  \<^verbatim>\<open>Print\<close> returns what the calls of \<^verbatim>\<open>fmt.Printf\<close> wrote, one string per call, and the
  panic that ended it, if any.
\<close>

definition Print :: "string list \<Rightarrow> string list \<Rightarrow> AnalysisReport \<Rightarrow> string list \<times> panic option" where
  "Print ks1 ks2 r =
     (let out =
        [''Total Log Entries: '' @ format_d (TotalEntries r) @ [CHR 0x0A],
         ''INFO: '' @ format_d (Info r) @ [CHR 0x0A],
         ''DEBUG: '' @ format_d (Debug r) @ [CHR 0x0A],
         ''WARN: '' @ format_d (Warn r) @ [CHR 0x0A],
         ''ERROR: '' @ format_d (Error r) @ [CHR 0x0A]] @ print_average r
      in case most_frequent ks1 ks2 r of
           Inl p \<Rightarrow> (out, Some p)
         | Inr freqMsg \<Rightarrow>
             (out @ [''Most frequent mesage: '' @ [CHR 0x27] @ freqMsg @ [CHR 0x27, CHR 0x0A]], None))"

section \<open>Definitions that the claims are stated with\<close>

text \<open>
  Calling \<^verbatim>\<open>Add\<close> for every entry of a list in turn, with no filter at all: what it means
  that every entry is added to the report.
\<close>

fun Add_all :: "(string \<Rightarrow> string) \<Rightarrow> AnalysisReport \<Rightarrow> LogEntry list \<Rightarrow> panic + AnalysisReport" where
  "Add_all ul report [] = Inr report"
| "Add_all ul report (entry # entries) =
     (case Add ul report entry of
        Inl p \<Rightarrow> Inl p
      | Inr report' \<Rightarrow> Add_all ul report' entries)"

text \<open>
  The number that a \<^verbatim>\<open>float64\<close> stands for, as a rational number (0 for the infinities
  and the NaN, which stand for no number), and the values of the datatype that are
  \<^verbatim>\<open>float64\<close> numbers: a mantissa below \<open>2\<^sup>5\<^sup>3\<close> and an exponent from -1074 to 971.
\<close>

fun exact_value :: "float64 \<Rightarrow> rat" where
  "exact_value (Finite s m e) = (if s then - 1 else 1) * of_int m * 2 powi e"
| "exact_value (Infinity s) = 0"
| "exact_value NaN = 0"

fun is_float64 :: "float64 \<Rightarrow> bool" where
  "is_float64 (Finite s m e) = (0 \<le> m \<and> m < 2 ^ 53 \<and> - 1074 \<le> e \<and> e \<le> 971)"
| "is_float64 (Infinity s) = True"
| "is_float64 NaN = True"

text \<open>The arithmetic mean of a list of numbers: their sum divided by their count.\<close>

definition arithmetic_mean :: "rat list \<Rightarrow> rat" where
  "arithmetic_mean qs = sum_list qs / of_nat (length qs)"

text \<open>
  A number to two decimal places: the multiple of 1/100 nearest to it, of two nearest
  ones the even one, written as a sign, the integer part, a point and two digits.
\<close>

definition nearest_int :: "rat \<Rightarrow> int" where
  "nearest_int x =
     (let f = \<lfloor>x\<rfloor>; r = x - of_int f
      in if r > 1 / 2 \<or> (r = 1 / 2 \<and> odd f) then f + 1 else f)"

definition two_decimals :: "rat \<Rightarrow> string" where
  "two_decimals x =
     (let h = nearest_int (\<bar>x\<bar> * 100)
      in (if x < 0 then ''-'' else '''') @ digits (nat (h div 100)) @ ''.'' @ appendInt (nat (h mod 100)) 2)"

chapter \<open>Properties\<close>

section \<open>Splitting a string at a separator\<close>

lemma cut_at_eq:
  "cut_at sep s =
     (if sep \<in> set s
      then Some (takeWhile (\<lambda>c. c \<noteq> sep) s, tl (dropWhile (\<lambda>c. c \<noteq> sep) s))
      else None)"
  by (induction s) simp_all

lemma cut_at_None: "cut_at sep s = None \<longleftrightarrow> sep \<notin> set s"
  by (simp add: cut_at_eq)

lemma cut_at_append: "sep \<notin> set a \<Longrightarrow> cut_at sep (a @ sep # b) = Some (a, b)"
  by (induction a) auto

lemma cut_at_SomeD:
  assumes "cut_at sep s = Some (a, b)"
  shows "s = a @ sep # b \<and> sep \<notin> set a"
proof -
  let ?P = "\<lambda>c. c \<noteq> sep"
  from assms have mem: "sep \<in> set s" and a: "a = takeWhile ?P s" and b: "b = tl (dropWhile ?P s)"
    by (simp_all add: cut_at_eq split: if_splits)
  from mem have ne: "dropWhile ?P s \<noteq> []" by (simp add: dropWhile_eq_Nil_conv)
  then have "\<not> ?P (hd (dropWhile ?P s))" by (rule hd_dropWhile)
  then have "dropWhile ?P s = sep # b" using ne b by (cases "dropWhile ?P s") simp_all
  then have "s = a @ sep # b" using a takeWhile_dropWhile_id [of ?P s] by simp
  moreover have "sep \<notin> set a" using a set_takeWhileD [of sep ?P s] by blast
  ultimately show ?thesis by simp
qed

lemma cut_at_Some: "cut_at sep s = Some (a, b) \<longleftrightarrow> s = a @ sep # b \<and> sep \<notin> set a"
  using cut_at_SomeD [of sep s a b] cut_at_append [of sep a b] by blast

lemma count_list_cut: "sep \<notin> set a \<Longrightarrow> count_list (a @ sep # b) sep = Suc (count_list b sep)"
  by (induction a) auto

lemma count_list_0: "count_list s sep = 0 \<longleftrightarrow> sep \<notin> set s"
  by (induction s) simp_all

lemma count_list_le_length: "count_list s x \<le> length s"
  by (induction s) simp_all

lemma length_genSplit: "length (genSplit s sep k) = Suc (min k (count_list s sep))"
proof (induction k arbitrary: s)
  case 0
  then show ?case by simp
next
  case (Suc k)
  show ?case
  proof (cases "cut_at sep s")
    case None
    then have "count_list s sep = 0" by (simp add: cut_at_None count_list_0)
    with None show ?thesis by simp
  next
    case (Some ab)
    obtain a b where ab: "ab = (a, b)" by (cases ab)
    with Some have s: "s = a @ sep # b" "sep \<notin> set a" by (simp_all add: cut_at_Some)
    have c: "count_list s sep = Suc (count_list b sep)"
      unfolding s(1) using s(2) by (rule count_list_cut)
    have "genSplit s sep (Suc k) = a # genSplit b sep k" using Some ab by simp
    then show ?thesis using Suc [of b] c by simp
  qed
qed

lemma genSplit_more: "count_list s sep \<le> k \<Longrightarrow> genSplit s sep k = genSplit s sep (count_list s sep)"
proof (induction k arbitrary: s)
  case 0
  then show ?case by simp
next
  case (Suc k)
  show ?case
  proof (cases "cut_at sep s")
    case None
    then have "count_list s sep = 0" by (simp add: cut_at_None count_list_0)
    with None show ?thesis by simp
  next
    case (Some ab)
    obtain a b where ab: "ab = (a, b)" by (cases ab)
    with Some have s: "s = a @ sep # b" "sep \<notin> set a" by (simp_all add: cut_at_Some)
    have c: "count_list s sep = Suc (count_list b sep)"
      unfolding s(1) using s(2) by (rule count_list_cut)
    with Suc.prems have "count_list b sep \<le> k" by simp
    from Suc.IH [OF this] have "genSplit b sep k = genSplit b sep (count_list b sep)" .
    moreover have "genSplit s sep (Suc k) = a # genSplit b sep k" using Some ab by simp
    moreover have "genSplit s sep (Suc (count_list b sep)) = a # genSplit b sep (count_list b sep)"
      using Some ab by simp
    ultimately show ?thesis using c by simp
  qed
qed

lemma genSplit_clamp: "genSplit s sep (min k (length s)) = genSplit s sep k"
proof (cases "k \<le> length s")
  case True
  then show ?thesis by (simp add: min_def)
next
  case False
  then have le: "count_list s sep \<le> k" "count_list s sep \<le> length s"
    using count_list_le_length [of s sep] by simp_all
  have "genSplit s sep k = genSplit s sep (count_list s sep)"
    using le(1) by (rule genSplit_more)
  moreover have "genSplit s sep (length s) = genSplit s sep (count_list s sep)"
    using le(2) by (rule genSplit_more)
  ultimately show ?thesis using False by (simp add: min_def)
qed

lemma SplitN_4: "SplitN s sep 4 = genSplit s sep (min 3 (length s))"
proof -
  have "nat (min 4 (int (length s) + 1) - 1) = min 3 (length s)" by (simp add: min_def)
  moreover have "SplitN s sep 4 = genSplit s sep (nat (min 4 (int (length s) + 1) - 1))"
    by (simp add: SplitN_def Let_def min_def)
  ultimately show ?thesis by simp
qed

lemma SplitN_4_genSplit: "SplitN s sep 4 = genSplit s sep 3"
  by (simp add: SplitN_4 genSplit_clamp)

lemma length_SplitN_4: "length (SplitN s sep 4) = Suc (min 3 (count_list s sep))"
  by (simp add: SplitN_4_genSplit length_genSplit)

lemma genSplit_3_iff:
  "genSplit s sep 3 = [d, t, l, m] \<longleftrightarrow>
     s = d @ sep # t @ sep # l @ sep # m \<and> sep \<notin> set d \<and> sep \<notin> set t \<and> sep \<notin> set l"
proof
  assume g: "genSplit s sep 3 = [d, t, l, m]"
  have 3: "(3::nat) = Suc (Suc (Suc 0))" by simp
  from g obtain r1 where c1: "cut_at sep s = Some (d, r1)" and g1: "genSplit r1 sep (Suc (Suc 0)) = [t, l, m]"
    unfolding 3 by (cases "cut_at sep s") auto
  from g1 obtain r2 where c2: "cut_at sep r1 = Some (t, r2)" and g2: "genSplit r2 sep (Suc 0) = [l, m]"
    by (cases "cut_at sep r1") auto
  from g2 have c3: "cut_at sep r2 = Some (l, m)"
    by (cases "cut_at sep r2") auto
  from c1 c2 c3 show "s = d @ sep # t @ sep # l @ sep # m \<and> sep \<notin> set d \<and> sep \<notin> set t \<and> sep \<notin> set l"
    by (simp add: cut_at_Some)
next
  assume a: "s = d @ sep # t @ sep # l @ sep # m \<and> sep \<notin> set d \<and> sep \<notin> set t \<and> sep \<notin> set l"
  have 3: "(3::nat) = Suc (Suc (Suc 0))" by simp
  show "genSplit s sep 3 = [d, t, l, m]"
    unfolding 3 using a by (simp add: cut_at_append)
qed

lemma first_sep_unique:
  fixes sep :: char
  assumes "a @ sep # b = a' @ sep # b'" "sep \<notin> set a" "sep \<notin> set a'"
  shows "a = a' \<and> b = b'"
proof -
  have "Some (a, b) = cut_at sep (a @ sep # b)" by (rule cut_at_append [OF assms(2), symmetric])
  also have "\<dots> = cut_at sep (a' @ sep # b')" by (simp only: assms(1))
  also have "\<dots> = Some (a', b')" by (rule cut_at_append [OF assms(3)])
  finally show ?thesis by simp
qed

lemma SplitN_4_cases:
  "length (SplitN line (CHR '' '') 4) < 4 \<or> (\<exists>d t l m. SplitN line (CHR '' '') 4 = [d, t, l, m])"
proof -
  have "length (SplitN line (CHR '' '') 4) \<le> 4" by (simp add: length_SplitN_4)
  then consider "length (SplitN line (CHR '' '') 4) < 4" | "length (SplitN line (CHR '' '') 4) = 4"
    by linarith
  then show ?thesis
  proof cases
    case 1
    then show ?thesis by simp
  next
    case 2
    then obtain d t l m where "SplitN line (CHR '' '') 4 = [d, t, l, m]"
      by (auto simp: length_Suc_conv numeral_eq_Suc)
    then show ?thesis by blast
  qed
qed

lemma Split_genSplit: "Split s sep = genSplit s sep (count_list s sep)"
proof -
  have "int (count_list s sep) + 1 \<le> int (length s) + 1"
    using count_list_le_length [of s sep] by simp
  then show ?thesis by (simp add: Split_def SplitN_def Let_def)
qed

lemma genSplit_not_Nil: "genSplit s sep k \<noteq> []"
  by (cases k) (simp_all split: option.splits prod.splits)

lemma Split_not_Nil: "Split s sep \<noteq> []"
  by (simp add: Split_genSplit genSplit_not_Nil)

lemma last_genSplit:
  assumes "s \<noteq> []" "last s \<noteq> sep"
  shows "last (genSplit s sep k) \<noteq> [] \<and> last (last (genSplit s sep k)) = last s"
  using assms
proof (induction k arbitrary: s)
  case 0
  then show ?case by simp
next
  case (Suc k)
  show ?case
  proof (cases "cut_at sep s")
    case None
    with Suc.prems show ?thesis by simp
  next
    case (Some ab)
    obtain a b where ab: "ab = (a, b)" by (cases ab)
    with Some have s: "s = a @ sep # b" by (simp add: cut_at_Some)
    with Suc.prems have b: "b \<noteq> []" "last b \<noteq> sep" "last s = last b" by (auto split: if_splits)
    have "genSplit s sep (Suc k) = a # genSplit b sep k" using Some ab by simp
    then have "last (genSplit s sep (Suc k)) = last (genSplit b sep k)"
      by (simp add: genSplit_not_Nil)
    with Suc.IH [OF b(1,2)] b(3) show ?thesis by simp
  qed
qed

lemma genSplit_numeral:
  "genSplit s sep (numeral k) =
     (case cut_at sep s of None \<Rightarrow> [s] | Some (a, rest) \<Rightarrow> a # genSplit rest sep (pred_numeral k))"
  by (simp add: numeral_eq_Suc)

section \<open>Decimal digits\<close>

lemma digit_char_simps:
  "digit_char 0 = CHR ''0''" "digit_char 1 = CHR ''1''" "digit_char 2 = CHR ''2''"
  "digit_char 3 = CHR ''3''" "digit_char 4 = CHR ''4''" "digit_char 5 = CHR ''5''"
  "digit_char 6 = CHR ''6''" "digit_char 7 = CHR ''7''" "digit_char 8 = CHR ''8''"
  "digit_char 9 = CHR ''9''"
  by code_simp+

lemma digit_char_Suc_0: "digit_char (Suc 0) = CHR ''1''"
  using digit_char_simps(2) by simp

lemma digit_char_digit_val: "is_digit c \<Longrightarrow> digit_char (digit_val c) = c"
  by (simp add: is_digit_def digit_char_def digit_val_def byte_def)

lemma digit_val_less: "is_digit c \<Longrightarrow> digit_val c < 10"
  by (auto simp: is_digit_def digit_val_def)

lemma is_digit_not_space: "is_digit c \<Longrightarrow> c \<noteq> CHR '' ''"
  by (auto simp: is_digit_def byte_def)

lemma digits_small: "n < 10 \<Longrightarrow> digits n = [digit_char n]"
  by (simp add: digits.simps)

lemma digits_step: "0 < n \<Longrightarrow> x < 10 \<Longrightarrow> digits (n * 10 + x) = digits n @ [digit_char x]"
  by (subst digits.simps) simp

lemma length_digits_pos: "0 < length (digits n)"
  by (subst digits.simps) simp

lemma appendInt_one: "x < 10 \<Longrightarrow> appendInt x (Suc 0) = [digit_char x]"
  by (simp add: appendInt_def digits_small)

lemma appendInt_step:
  assumes "x < 10" "0 < w"
  shows "appendInt (n * 10 + x) (Suc w) = appendInt n w @ [digit_char x]"
proof (cases "n = 0")
  case True
  have "replicate w (CHR ''0'') = replicate (w - 1) (CHR ''0'') @ [CHR ''0'']"
    using assms(2) by (cases w) (simp_all add: replicate_append_same)
  moreover have "digit_char 0 = CHR ''0''" by (rule digit_char_simps)
  ultimately show ?thesis using True assms by (simp add: appendInt_def digits_small)
next
  case False
  then have "digits (n * 10 + x) = digits n @ [digit_char x]" using assms by (simp add: digits_step)
  then show ?thesis using length_digits_pos [of n] by (simp add: appendInt_def Suc_diff_le)
qed

lemma appendInt_2:
  assumes "is_digit a" "is_digit b"
  shows "appendInt (digit_val a * 10 + digit_val b) 2 = [a, b]"
proof -
  have "appendInt (digit_val a * 10 + digit_val b) (Suc (Suc 0)) =
      appendInt (digit_val a) (Suc 0) @ [digit_char (digit_val b)]"
    using assms by (intro appendInt_step) (simp_all add: digit_val_less)
  then show ?thesis using assms
    by (simp add: appendInt_one digit_val_less digit_char_digit_val numeral_2_eq_2)
qed

lemma appendInt_4:
  assumes "is_digit a" "is_digit b" "is_digit c" "is_digit d"
  shows "appendInt (((digit_val a * 10 + digit_val b) * 10 + digit_val c) * 10 + digit_val d) 4 = [a, b, c, d]"
proof -
  have 4: "(4::nat) = Suc (Suc 2)" by simp
  have "appendInt (((digit_val a * 10 + digit_val b) * 10 + digit_val c) * 10 + digit_val d) (Suc (Suc 2))
      = appendInt ((digit_val a * 10 + digit_val b) * 10 + digit_val c) (Suc 2) @ [digit_char (digit_val d)]"
    using assms by (intro appendInt_step) (simp_all add: digit_val_less)
  also have "appendInt ((digit_val a * 10 + digit_val b) * 10 + digit_val c) (Suc 2)
      = appendInt (digit_val a * 10 + digit_val b) 2 @ [digit_char (digit_val c)]"
    using assms by (intro appendInt_step) (simp_all add: digit_val_less)
  finally show ?thesis using assms unfolding 4 by (simp add: appendInt_2 digit_char_digit_val)
qed

section \<open>What \<^verbatim>\<open>time.Parse\<close> accepts, and how it prints\<close>

lemma skip_char: "p \<noteq> CHR '' '' \<Longrightarrow> skip v [p] = Some r \<longleftrightarrow> v = p # r"
  by (cases v) auto

lemma skip_space: "skip v '' '' = Some r \<longleftrightarrow> (v = [] \<or> hd v = CHR '' '') \<and> r = cutspace v"
  by auto

lemma cutspace_id: "CHR '' '' \<notin> set t \<Longrightarrow> cutspace t = t"
  by (cases t) auto

lemma getnum_True:
  "getnum s True = Some (n, r) \<longleftrightarrow>
     (\<exists>a b. s = a # b # r \<and> is_digit a \<and> is_digit b \<and> n = digit_val a * 10 + digit_val b)"
proof (cases s)
  case Nil
  then show ?thesis by (simp add: getnum_def isDigit_def)
next
  case (Cons a s')
  then show ?thesis by (cases s') (auto simp: getnum_def isDigit_def)
qed

lemma getnum_False:
  "getnum s False = Some (n, r) \<longleftrightarrow>
     (\<exists>a b. s = a # b # r \<and> is_digit a \<and> is_digit b \<and> n = digit_val a * 10 + digit_val b)
     \<or> (\<exists>a. s = a # r \<and> is_digit a \<and> \<not> isDigit r 0 \<and> n = digit_val a)"
proof (cases s)
  case Nil
  then show ?thesis by (simp add: getnum_def isDigit_def)
next
  case (Cons a s')
  then show ?thesis by (cases s') (auto simp: getnum_def isDigit_def)
qed

lemma atoi_4:
  "atoi [a, b, c, d] = Some y \<longleftrightarrow>
     is_digit a \<and> is_digit b \<and> is_digit c \<and> is_digit d \<and>
     y = ((digit_val a * 10 + digit_val b) * 10 + digit_val c) * 10 + digit_val d"
  by (auto simp: atoi_def)

lemma Parse_fraction_shape:
  assumes "Parse_fraction v = Some (ns, r)"
  shows "\<exists>fr. v = fr @ r \<and> (fr = [] \<or> 2 \<le> length fr)"
proof (cases "length v \<ge> 2 \<and> commaOrPeriod (v ! 0) \<and> isDigit v 1")
  case False
  with assms have "r = v" by (auto simp: Parse_fraction_def)
  then show ?thesis by simp
next
  case True
  define n where "n = 2 + digit_run (drop 2 v)"
  from True assms have "r = drop n v"
    by (auto simp: Parse_fraction_def n_def Let_def split: option.splits)
  then have "v = take n v @ r" by simp
  moreover have "2 \<le> length (take n v)" using True by (simp add: n_def)
  ultimately show ?thesis by blast
qed

lemma Parse_date_shape:
  assumes "Parse_date v0 = Some ((y, mo, da), v4)"
  shows "\<exists>D. v0 = D @ v4 \<and> length D = 10 \<and> CHR '' '' \<notin> set D \<and>
           D = appendInt y 4 @ ''-'' @ appendInt mo 2 @ ''-'' @ appendInt da 2"
proof -
  from assms have len: "4 \<le> length v0"
    by (simp add: Parse_date_def split: if_splits)
  then obtain a b c d r where v0: "v0 = a # b # c # d # r"
    by (cases v0; cases "tl v0"; cases "tl (tl v0)"; cases "tl (tl (tl v0))") auto
  from assms v0 obtain v1 mv2 v3 where
    y: "atoi [a, b, c, d] = Some y" and
    s1: "skip r ''-'' = Some v1" and
    g1: "getnum v1 True = Some mv2" and
    s2: "skip (snd mv2) ''-'' = Some v3" and
    g2: "getnum v3 True = Some (da, v4)" and
    mo: "mo = fst mv2"
    by (auto simp: Parse_date_def split: if_splits Option.bind_splits prod.splits)
  from y have dy: "is_digit a" "is_digit b" "is_digit c" "is_digit d"
    and y': "y = ((digit_val a * 10 + digit_val b) * 10 + digit_val c) * 10 + digit_val d"
    by (simp_all add: atoi_4)
  from s1 have r: "r = CHR ''-'' # v1" by (cases r) (auto split: if_splits)
  from g1 mo obtain m1 m2 where v1: "v1 = m1 # m2 # snd mv2" and dm: "is_digit m1" "is_digit m2"
    and mo': "mo = digit_val m1 * 10 + digit_val m2"
    by (cases mv2) (auto simp: getnum_True)
  from s2 have v2: "snd mv2 = CHR ''-'' # v3" by (cases "snd mv2") (auto split: if_splits)
  from g2 obtain d1 d2 where v3: "v3 = d1 # d2 # v4" and dd: "is_digit d1" "is_digit d2"
    and da': "da = digit_val d1 * 10 + digit_val d2"
    by (auto simp: getnum_True)
  let ?D = "[a, b, c, d, CHR ''-'', m1, m2, CHR ''-'', d1, d2]"
  have "v0 = ?D @ v4" using v0 r v1 v2 v3 by simp
  moreover have "length ?D = 10" by simp
  moreover have "CHR '' '' \<notin> set ?D" using dy dm dd by (auto dest: is_digit_not_space)
  moreover have "?D = appendInt y 4 @ ''-'' @ appendInt mo 2 @ ''-'' @ appendInt da 2"
  proof -
    have "appendInt y 4 = [a, b, c, d]" unfolding y' using dy by (rule appendInt_4)
    moreover have "appendInt mo 2 = [m1, m2]" unfolding mo' using dm by (rule appendInt_2)
    moreover have "appendInt da 2 = [d1, d2]" unfolding da' using dd by (rule appendInt_2)
    ultimately show ?thesis by simp
  qed
  ultimately show ?thesis by blast
qed

lemma Parse_clock_shape:
  assumes "Parse_clock v4 = Some ((h, mi, s, ns), v11)"
  shows "\<exists>hh fr. (v4 = [] \<or> hd v4 = CHR '' '') \<and>
           cutspace v4 = hh @ '':'' @ appendInt mi 2 @ '':'' @ appendInt s 2 @ fr @ v11 \<and>
           (hh = appendInt h 2 \<or> length hh = 1) \<and> length (appendInt h 2) = 2 \<and>
           length (appendInt mi 2) = 2 \<and> length (appendInt s 2) = 2 \<and>
           (fr = [] \<or> 2 \<le> length fr)"
proof -
  from assms obtain v5 v6 v7 v8 v9 v10 where
    s0: "skip v4 '' '' = Some v5" and
    g0: "getnum v5 False = Some (h, v6)" and
    s1: "skip v6 '':'' = Some v7" and
    g1: "getnum v7 True = Some (mi, v8)" and
    s2: "skip v8 '':'' = Some v9" and
    g2: "getnum v9 True = Some (s, v10)" and
    fr: "Parse_fraction v10 = Some (ns, v11)"
    by (auto simp: Parse_clock_def split: if_splits Option.bind_splits prod.splits)
  from s0 have v4: "v4 = [] \<or> hd v4 = CHR '' ''" and v5: "v5 = cutspace v4"
    by (auto split: if_splits)
  from s1 have v6: "v6 = CHR '':'' # v7" by (cases v6) (auto split: if_splits)
  from s2 have v8: "v8 = CHR '':'' # v9" by (cases v8) (auto split: if_splits)
  from g1 obtain m1 m2 where v7: "v7 = m1 # m2 # v8" and dm: "is_digit m1" "is_digit m2"
    and mi: "mi = digit_val m1 * 10 + digit_val m2"
    by (auto simp: getnum_True)
  from g2 obtain s1 s2 where v9: "v9 = s1 # s2 # v10" and ds: "is_digit s1" "is_digit s2"
    and s: "s = digit_val s1 * 10 + digit_val s2"
    by (auto simp: getnum_True)
  from fr obtain f where v10: "v10 = f @ v11" and f: "f = [] \<or> 2 \<le> length f"
    using Parse_fraction_shape by blast
  have ami: "appendInt mi 2 = [m1, m2]" unfolding mi using dm by (rule appendInt_2)
  have as: "appendInt s 2 = [s1, s2]" unfolding s using ds by (rule appendInt_2)
  from g0 obtain hh where hh: "v5 = hh @ v6" and hh2: "hh = appendInt h 2 \<or> length hh = 1"
    and lh: "length (appendInt h 2) = 2"
  proof -
    from g0 consider
      (two) a b where "v5 = a # b # v6" "is_digit a" "is_digit b" "h = digit_val a * 10 + digit_val b"
      | (one) a where "v5 = a # v6" "is_digit a" "h = digit_val a"
      by (auto simp: getnum_False)
    then show ?thesis
    proof cases
      case two
      have "appendInt h 2 = [a, b]" unfolding two(4) using two(2,3) by (rule appendInt_2)
      with two(1) that [of "[a, b]"] show ?thesis by simp
    next
      case one
      have "appendInt (0 * 10 + digit_val a) (Suc (Suc 0)) = appendInt 0 (Suc 0) @ [digit_char (digit_val a)]"
        using one(2) by (intro appendInt_step) (simp_all add: digit_val_less)
      then have "length (appendInt h 2) = 2" using one(3)
        by (simp add: appendInt_one numeral_2_eq_2)
      with one(1) that [of "[a]"] show ?thesis by simp
    qed
  qed
  have "cutspace v4 = hh @ '':'' @ appendInt mi 2 @ '':'' @ appendInt s 2 @ f @ v11"
    using v5 hh v6 v7 v8 v9 v10 ami as by simp
  with v4 hh2 lh f ami as show ?thesis by (intro exI [of _ hh] exI [of _ f]) simp
qed

lemma Parse_SomeD:
  assumes "Parse v0 = Some ts"
  shows "\<exists>y mo da v4 h mi s ns.
           Parse_date v0 = Some ((y, mo, da), v4) \<and>
           Parse_clock v4 = Some ((h, mi, s, ns), []) \<and>
           ts = \<lparr>Year = y, Month = mo, Day = da, Hour = h, Minute = mi, Second = s, Nanosecond = ns\<rparr>"
proof (cases "Parse_date v0")
  case None
  with assms show ?thesis by (simp add: Parse_def)
next
  case (Some x)
  obtain p v4 where "x = (p, v4)" by (cases x)
  moreover obtain y mo da where "p = (y, mo, da)" by (cases p)
  ultimately have x: "x = ((y, mo, da), v4)" by simp
  show ?thesis
  proof (cases "Parse_clock v4")
    case None
    with assms Some x show ?thesis by (simp add: Parse_def)
  next
    case (Some z)
    obtain q v11 where "z = (q, v11)" by (cases z)
    moreover obtain h mi s ns where "q = (h, mi, s, ns)" by (cases q)
    ultimately have z: "z = ((h, mi, s, ns), v11)" by simp
    from assms \<open>Parse_date v0 = Some x\<close> x Some z
    have "v11 = [] \<and> ts = \<lparr>Year = y, Month = mo, Day = da, Hour = h, Minute = mi, Second = s, Nanosecond = ns\<rparr>"
      by (simp add: Parse_def split: if_splits)
    with \<open>Parse_date v0 = Some x\<close> x Some z show ?thesis by blast
  qed
qed

lemma Parse_Format:
  assumes p: "Parse (d @ '' '' @ t) = Some ts"
    and d: "CHR '' '' \<notin> set d" and t: "CHR '' '' \<notin> set t"
  shows "Format ts = d @ '' '' @ t \<longleftrightarrow> length t = 8"
proof -
  from p obtain y mo da v4 h mi s ns where
    pd: "Parse_date (d @ '' '' @ t) = Some ((y, mo, da), v4)" and
    pc: "Parse_clock v4 = Some ((h, mi, s, ns), [])" and
    ts: "ts = \<lparr>Year = y, Month = mo, Day = da, Hour = h, Minute = mi, Second = s, Nanosecond = ns\<rparr>"
    using Parse_SomeD by blast
  from Parse_date_shape [OF pd] obtain D where
    D: "d @ '' '' @ t = D @ v4" "length D = 10" "CHR '' '' \<notin> set D"
       "D = appendInt y 4 @ ''-'' @ appendInt mo 2 @ ''-'' @ appendInt da 2"
    by blast
  from Parse_clock_shape [OF pc] obtain hh fr where
    v4: "v4 = [] \<or> hd v4 = CHR '' ''" and
    c: "cutspace v4 = hh @ '':'' @ appendInt mi 2 @ '':'' @ appendInt s 2 @ fr" and
    hh: "hh = appendInt h 2 \<or> length hh = 1" and
    l: "length (appendInt h 2) = 2" "length (appendInt mi 2) = 2" "length (appendInt s 2) = 2" and
    fr: "fr = [] \<or> 2 \<le> length fr"
    by auto
  from c have "v4 \<noteq> []" by auto
  with v4 obtain t' where v4': "v4 = CHR '' '' # t'" by (cases v4) auto
  from D(1) v4' have "d @ CHR '' '' # t = D @ CHR '' '' # t'" by simp
  from first_sep_unique [OF this d D(3)] have dD: "d = D" and tt: "t = t'" by simp_all
  have "cutspace v4 = t" using v4' tt t by (simp add: cutspace_id)
  with c have t_eq: "t = hh @ '':'' @ appendInt mi 2 @ '':'' @ appendInt s 2 @ fr" by simp
  have F: "Format ts = D @ '' '' @ appendInt h 2 @ '':'' @ appendInt mi 2 @ '':'' @ appendInt s 2"
    by (simp add: Format_def ts D(4))
  have lt: "length t = length hh + 6 + length fr" by (subst t_eq) (simp add: l)
  show ?thesis
  proof
    assume "Format ts = d @ '' '' @ t"
    then have "length (Format ts) = length (d @ '' '' @ t)" by simp
    then show "length t = 8" unfolding F dD by (simp add: D(2) l)
  next
    assume "length t = 8"
    with lt have "length hh + length fr = 2" by simp
    moreover have "length hh = 2 \<or> length hh = 1" using hh l(1) by auto
    moreover have "length fr = 0 \<or> 2 \<le> length fr" using fr by auto
    ultimately have "length hh = 2 \<and> length fr = 0" by linarith
    with hh have "hh = appendInt h 2 \<and> fr = []" by auto
    then show "Format ts = d @ '' '' @ t" by (subst t_eq) (simp add: F dD)
  qed
qed

section \<open>\<^verbatim>\<open>NewLogEntry\<close> and \<^verbatim>\<open>ReadFile\<close>\<close>

lemma ReadFile_loop_entries:
  "fst (ReadFile_loop ls es lg) = es @ map (\<lambda>l. fst (NewLogEntry l)) ls"
  by (induction ls arbitrary: es lg) (auto split: prod.splits)

lemma ReadFile_loop_logged:
  "snd (ReadFile_loop ls es lg) = lg @ concat (map (\<lambda>l. case snd (NewLogEntry l) of None \<Rightarrow> [] | Some e \<Rightarrow> [e]) ls)"
  by (induction ls arbitrary: es lg) (auto split: prod.splits option.splits)

lemma NewLogEntry_error_zero:
  "snd (NewLogEntry l) \<noteq> None \<Longrightarrow> fst (NewLogEntry l) = LogEntry_zero"
  by (auto simp: NewLogEntry_def Let_def split: option.splits if_splits)

lemma NewLogEntry_fields:
  assumes "SplitN line (CHR '' '') 4 = [d, t, l, m]"
  shows "NewLogEntry line =
           (case Parse (d @ '' '' @ t) of
              None \<Rightarrow> (LogEntry_zero, Some InvalidLogTime)
            | Some ts \<Rightarrow> (\<lparr>time = ts, level = l, message = m\<rparr>, None))"
  using assms by (simp add: NewLogEntry_def)

lemma NewLogEntry_few_fields:
  "length (SplitN line (CHR '' '') 4) < 4 \<Longrightarrow> NewLogEntry line = (LogEntry_zero, Some InvalidLogEntry)"
  by (simp add: NewLogEntry_def)

subsection \<open>Evaluation on concrete lines\<close>

lemmas char_defs = is_digit_def byte_def digit_val_def isDigit_def commaOrPeriod_def

lemmas parse_defs = Parse_def Parse_date_def Parse_clock_def Parse_fraction_def getnum_def atoi_def
  parseNanoseconds_def daysIn_def isLeap_def

lemma NewLogEntry_bad_line: "NewLogEntry ''bad line'' = (LogEntry_zero, Some InvalidLogEntry)"
  by (simp add: NewLogEntry_def SplitN_def genSplit_numeral)

lemma Parse_example:
  "Parse ''2024-01-01 10:00:00'' =
     Some \<lparr>Year = 2024, Month = 1, Day = 1, Hour = 10, Minute = 0, Second = 0, Nanosecond = 0\<rparr>"
  by (simp add: parse_defs char_defs)

lemma NewLogEntry_example:
  "NewLogEntry ''2024-01-01 10:00:00 INFO started ok'' =
     (\<lparr>time = \<lparr>Year = 2024, Month = 1, Day = 1, Hour = 10, Minute = 0, Second = 0, Nanosecond = 0\<rparr>,
       level = ''INFO'', message = ''started ok''\<rparr>, None)"
  by (simp add: NewLogEntry_def SplitN_def genSplit_numeral Parse_example)

lemma SplitN_example:
  "SplitN ''2024-01-01 10:00:00 INFO started ok'' (CHR '' '') 4 =
     [''2024-01-01'', ''10:00:00'', ''INFO'', ''started ok'']"
  by (simp add: SplitN_def genSplit_numeral)

lemma Format_example:
  "Format \<lparr>Year = 2024, Month = 1, Day = 1, Hour = 10, Minute = 0, Second = 0, Nanosecond = 0\<rparr> =
     ''2024-01-01 10:00:00''"
  by (simp add: Format_def appendInt_def digits.simps digit_char_simps digit_char_Suc_0)

lemma Parse_hour_one_digit:
  "Parse ''2024-01-01 1:00:00'' =
     Some \<lparr>Year = 2024, Month = 1, Day = 1, Hour = 1, Minute = 0, Second = 0, Nanosecond = 0\<rparr>"
  by (simp add: parse_defs char_defs)

lemma NewLogEntry_hour_one_digit:
  "NewLogEntry ''2024-01-01 1:00:00 INFO started ok'' =
     (\<lparr>time = \<lparr>Year = 2024, Month = 1, Day = 1, Hour = 1, Minute = 0, Second = 0, Nanosecond = 0\<rparr>,
       level = ''INFO'', message = ''started ok''\<rparr>, None)"
  by (simp add: NewLogEntry_def SplitN_def genSplit_numeral Parse_hour_one_digit)

lemma Format_hour_one_digit:
  "Format \<lparr>Year = 2024, Month = 1, Day = 1, Hour = 1, Minute = 0, Second = 0, Nanosecond = 0\<rparr> =
     ''2024-01-01 01:00:00''"
  by (simp add: Format_def appendInt_def digits.simps digit_char_simps digit_char_Suc_0)

lemma SplitN_hour_one_digit:
  "SplitN ''2024-01-01 1:00:00 INFO started ok'' (CHR '' '') 4 =
     [''2024-01-01'', ''1:00:00'', ''INFO'', ''started ok'']"
  by (simp add: SplitN_def genSplit_numeral)

lemma fields_hour_one_digit:
  "SplitN ''2024-01-01 1:00:00 INFO started ok'' (CHR '' '') 4 ! 0 @ '' '' @
   SplitN ''2024-01-01 1:00:00 INFO started ok'' (CHR '' '') 4 ! 1 = ''2024-01-01 1:00:00''"
  by (simp add: SplitN_hour_one_digit)

lemma Parse_fraction_example:
  "Parse ''2024-01-01 10:00:00.5'' =
     Some \<lparr>Year = 2024, Month = 1, Day = 1, Hour = 10, Minute = 0, Second = 0, Nanosecond = 500000000\<rparr>"
  by (simp add: parse_defs char_defs)

lemma NewLogEntry_fraction_example:
  "NewLogEntry ''2024-01-01 10:00:00.5 INFO started ok'' =
     (\<lparr>time = \<lparr>Year = 2024, Month = 1, Day = 1, Hour = 10, Minute = 0, Second = 0, Nanosecond = 500000000\<rparr>,
       level = ''INFO'', message = ''started ok''\<rparr>, None)"
  by (simp add: NewLogEntry_def SplitN_def genSplit_numeral Parse_fraction_example)

lemma Format_fraction_example:
  "Format \<lparr>Year = 2024, Month = 1, Day = 1, Hour = 10, Minute = 0, Second = 0, Nanosecond = 500000000\<rparr> =
     ''2024-01-01 10:00:00''"
  by (simp add: Format_def appendInt_def digits.simps digit_char_simps digit_char_Suc_0)

lemma SplitN_fraction_example:
  "SplitN ''2024-01-01 10:00:00.5 INFO started ok'' (CHR '' '') 4 =
     [''2024-01-01'', ''10:00:00.5'', ''INFO'', ''started ok'']"
  by (simp add: SplitN_def genSplit_numeral)

lemma fields_fraction_example:
  "SplitN ''2024-01-01 10:00:00.5 INFO started ok'' (CHR '' '') 4 ! 0 @ '' '' @
   SplitN ''2024-01-01 10:00:00.5 INFO started ok'' (CHR '' '') 4 ! 1 = ''2024-01-01 10:00:00.5''"
  by (simp add: SplitN_fraction_example)

section \<open>\<^verbatim>\<open>Add\<close> and \<^verbatim>\<open>Analyze\<close>\<close>

lemma filter_loop_id: "filter_loop flt entry report = report"
  by (induction flt) simp_all

lemma count_level_fields:
  "TotalEntries (count_level ul e r) = TotalEntries r"
  "ResponseTime (count_level ul e r) = ResponseTime r"
  "MsgFrequency (count_level ul e r) = MsgFrequency r"
  by (simp_all add: count_level_def Let_def)

lemma count_level_counters:
  "Info (count_level ul e r) = Info r + (if ToLower ul (level e) = ''info'' then 1 else 0)"
  "Warn (count_level ul e r) = Warn r + (if ToLower ul (level e) = ''warn'' then 1 else 0)"
  "Error (count_level ul e r) = Error r + (if ToLower ul (level e) = ''error'' then 1 else 0)"
  "Debug (count_level ul e r) = Debug r + (if ToLower ul (level e) = ''debug'' then 1 else 0)"
  by (simp_all add: count_level_def Let_def)

lemma record_response_time_fields:
  "TotalEntries (record_response_time e r) = TotalEntries r"
  "Info (record_response_time e r) = Info r"
  "Warn (record_response_time e r) = Warn r"
  "Error (record_response_time e r) = Error r"
  "Debug (record_response_time e r) = Debug r"
  "MsgFrequency (record_response_time e r) = MsgFrequency r"
  by (simp_all add: record_response_time_def Let_def split: option.splits)

lemma count_message_Some:
  assumes "MsgFrequency r = Some m"
  shows "count_message e r =
           Inr (r\<lparr>MsgFrequency := Some (m(message e \<mapsto> (case m (message e) of None \<Rightarrow> 0 | Some c \<Rightarrow> c) + 1))\<rparr>)"
  using assms by (simp add: count_message_def)

text \<open>What one call of \<^verbatim>\<open>Add\<close> does to a report whose map is allocated.\<close>

lemma Add_Some:
  assumes "MsgFrequency r = Some m"
  shows "\<exists>r'. Add ul r e = Inr r' \<and>
           TotalEntries r' = TotalEntries r + 1 \<and>
           Info r' = Info r + (if ToLower ul (level e) = ''info'' then 1 else 0) \<and>
           Warn r' = Warn r + (if ToLower ul (level e) = ''warn'' then 1 else 0) \<and>
           Error r' = Error r + (if ToLower ul (level e) = ''error'' then 1 else 0) \<and>
           Debug r' = Debug r + (if ToLower ul (level e) = ''debug'' then 1 else 0) \<and>
           ResponseTime r' = ResponseTime (record_response_time e r) \<and>
           MsgFrequency r' =
             Some (m(message e \<mapsto> (case m (message e) of None \<Rightarrow> 0 | Some c \<Rightarrow> c) + 1))"
proof -
  let ?r1 = "r\<lparr>TotalEntries := TotalEntries r + 1\<rparr>"
  let ?r3 = "record_response_time e (count_level ul e ?r1)"
  have m3: "MsgFrequency ?r3 = Some m"
    using assms by (simp add: record_response_time_fields count_level_fields)
  have rt: "ResponseTime ?r3 = ResponseTime (record_response_time e r)"
    by (simp add: record_response_time_def Let_def count_level_fields split: option.splits)
  show ?thesis
    unfolding Add_def count_message_Some [OF m3]
    by (simp add: record_response_time_fields count_level_fields count_level_counters rt)
qed

lemma Analyze_loop_Add_all: "Analyze_loop ul es flt r = Add_all ul r es"
  by (induction es arbitrary: r) (simp_all add: filter_loop_id split: sum.splits)

lemma Add_all_counts:
  assumes "MsgFrequency r = Some m"
  shows "\<exists>r' m'. Add_all ul r es = Inr r' \<and> MsgFrequency r' = Some m' \<and>
           TotalEntries r' = TotalEntries r + int (length es) \<and>
           Info r' = Info r + int (length (filter (\<lambda>e. ToLower ul (level e) = ''info'') es)) \<and>
           Warn r' = Warn r + int (length (filter (\<lambda>e. ToLower ul (level e) = ''warn'') es)) \<and>
           Error r' = Error r + int (length (filter (\<lambda>e. ToLower ul (level e) = ''error'') es)) \<and>
           Debug r' = Debug r + int (length (filter (\<lambda>e. ToLower ul (level e) = ''debug'') es))"
  using assms
proof (induction es arbitrary: r m)
  case Nil
  then show ?case by simp
next
  case (Cons e es)
  from Add_Some [OF Cons.prems, of ul e] obtain r1 where
    a: "Add ul r e = Inr r1" and
    t: "TotalEntries r1 = TotalEntries r + 1" and
    i: "Info r1 = Info r + (if ToLower ul (level e) = ''info'' then 1 else 0)" and
    w: "Warn r1 = Warn r + (if ToLower ul (level e) = ''warn'' then 1 else 0)" and
    er: "Error r1 = Error r + (if ToLower ul (level e) = ''error'' then 1 else 0)" and
    d: "Debug r1 = Debug r + (if ToLower ul (level e) = ''debug'' then 1 else 0)" and
    m1: "MsgFrequency r1 = Some (m(message e \<mapsto> (case m (message e) of None \<Rightarrow> 0 | Some c \<Rightarrow> c) + 1))"
    by blast
  from Cons.IH [OF m1] obtain r' m' where
    "Add_all ul r1 es = Inr r'" "MsgFrequency r' = Some m'"
    "TotalEntries r' = TotalEntries r1 + int (length es)"
    "Info r' = Info r1 + int (length (filter (\<lambda>e. ToLower ul (level e) = ''info'') es))"
    "Warn r' = Warn r1 + int (length (filter (\<lambda>e. ToLower ul (level e) = ''warn'') es))"
    "Error r' = Error r1 + int (length (filter (\<lambda>e. ToLower ul (level e) = ''error'') es))"
    "Debug r' = Debug r1 + int (length (filter (\<lambda>e. ToLower ul (level e) = ''debug'') es))"
    by blast
  then show ?case using a t i w er d by simp
qed

lemma Add_all_keys:
  assumes "MsgFrequency r = Some m"
  shows "\<exists>r' m'. Add_all ul r es = Inr r' \<and> MsgFrequency r' = Some m' \<and>
           dom m' = dom m \<union> message ` set es"
  using assms
proof (induction es arbitrary: r m)
  case Nil
  then show ?case by simp
next
  case (Cons e es)
  from Add_Some [OF Cons.prems, of ul e] obtain r1 where
    a: "Add ul r e = Inr r1" and
    m1: "MsgFrequency r1 = Some (m(message e \<mapsto> (case m (message e) of None \<Rightarrow> 0 | Some c \<Rightarrow> c) + 1))"
    by blast
  from Cons.IH [OF m1] obtain r' m' where
    "Add_all ul r1 es = Inr r'" "MsgFrequency r' = Some m'"
    "dom m' = dom (m(message e \<mapsto> (case m (message e) of None \<Rightarrow> 0 | Some c \<Rightarrow> c) + 1)) \<union> message ` set es"
    by blast
  then show ?case using a by auto
qed

lemma Add_key:
  assumes "Add ul r e = Inr r'"
  shows "message e \<in> map_keys (MsgFrequency r')"
proof (cases "MsgFrequency r")
  case None
  then have "Add ul r e = Inl NilMapAssignment"
    by (simp add: Add_def count_message_def record_response_time_fields count_level_fields)
  with assms show ?thesis by simp
next
  case (Some m)
  from Add_Some [OF Some, of ul e] assms show ?thesis by (auto simp: map_keys_def)
qed

lemma new_report_map: "MsgFrequency new_report = Some Map.empty"
  by (simp add: new_report_def)

lemma new_report_fields:
  "TotalEntries new_report = 0" "Info new_report = 0" "Warn new_report = 0"
  "Error new_report = 0" "Debug new_report = 0" "ResponseTime new_report = []"
  by (simp_all add: new_report_def)

lemma ToLower_examples:
  "ToLower ul ''INFO'' = ''info''" "ToLower ul ''info'' = ''info''"
  "ToLower ul ''WARN'' = ''warn''" "ToLower ul ''error'' = ''error''"
  by code_simp+

lemma level_counts_le:
  "length (filter (\<lambda>e. ToLower ul (level e) = ''info'') es)
   + length (filter (\<lambda>e. ToLower ul (level e) = ''warn'') es)
   + length (filter (\<lambda>e. ToLower ul (level e) = ''error'') es)
   + length (filter (\<lambda>e. ToLower ul (level e) = ''debug'') es) \<le> length es"
  by (induction es) auto

section \<open>No number that \<^verbatim>\<open>ParseFloat\<close> accepts contains the letter s\<close>

lemma lower_s: "lower (CHR ''s'') = 115"
  by (simp add: lower_def byte_def)

lemma not_s:
  "\<not> is_digit (CHR ''s'')" "\<not> is_hex_letter (CHR ''s'')" "CHR ''s'' \<noteq> CHR ''_''"
  "CHR ''s'' \<noteq> CHR ''.''" "CHR ''s'' \<noteq> CHR ''+''" "CHR ''s'' \<noteq> CHR ''-''"
  "CHR ''s'' \<noteq> CHR ''0''"
  by (simp_all add: is_digit_def is_hex_letter_def lower_def byte_def)

lemma mantissa_loop_consumed:
  "mantissa_loop base st s = (st', rest) \<Longrightarrow> \<exists>pre. s = pre @ rest \<and> CHR ''s'' \<notin> set pre"
proof (induction s arbitrary: st)
  case Nil
  then show ?case by simp
next
  case (Cons c cs)
  show ?case
  proof (cases "mantissa_loop base st (c # cs) = (st, c # cs)")
    case True
    with Cons.prems have "rest = c # cs" by simp
    then show ?thesis by simp
  next
    case False
    then obtain st1 where step: "mantissa_loop base st (c # cs) = mantissa_loop base st1 cs"
      and c: "c = CHR ''_'' \<or> c = CHR ''.'' \<or> is_digit c \<or> is_hex_letter c"
      by (auto split: if_splits)
    from step Cons.prems have "mantissa_loop base st1 cs = (st', rest)" by simp
    from Cons.IH [OF this] obtain pre where "cs = pre @ rest" "CHR ''s'' \<notin> set pre" by blast
    moreover from c have "c \<noteq> CHR ''s''" using not_s by auto
    ultimately have "c # cs = (c # pre) @ rest \<and> CHR ''s'' \<notin> set (c # pre)" by simp
    then show ?thesis by blast
  qed
qed

lemma exponent_loop_consumed:
  "exponent_loop e u s = (e', u', rest) \<Longrightarrow> \<exists>pre. s = pre @ rest \<and> CHR ''s'' \<notin> set pre"
proof (induction s arbitrary: e u)
  case Nil
  then show ?case by simp
next
  case (Cons c cs)
  show ?case
  proof (cases "c = CHR ''_'' \<or> is_digit c")
    case False
    with Cons.prems have "rest = c # cs" by simp
    then show ?thesis by simp
  next
    case True
    then have "\<exists>e1 u1. exponent_loop e u (c # cs) = exponent_loop e1 u1 cs"
      by (cases "c = CHR ''_''") auto
    then obtain e1 u1 where "exponent_loop e u (c # cs) = exponent_loop e1 u1 cs"
      by blast
    with Cons.prems have "exponent_loop e1 u1 cs = (e', u', rest)" by simp
    from Cons.IH [OF this] obtain pre where "cs = pre @ rest" "CHR ''s'' \<notin> set pre" by blast
    moreover from True have "c \<noteq> CHR ''s''" using not_s by auto
    ultimately have "c # cs = (c # pre) @ rest \<and> CHR ''s'' \<notin> set (c # pre)" by simp
    then show ?thesis by blast
  qed
qed

lemma read_exponent_consumed:
  assumes "read_exponent base s = Some (e, u, rest)"
  shows "\<exists>pre. s = pre @ rest \<and> CHR ''s'' \<notin> set pre"
proof (cases "s \<noteq> [] \<and> lower (hd s) = (if base = 16 then 112 else 101)")
  case False
  with assms have "rest = s" by (auto simp: read_exponent_def split: if_splits)
  then show ?thesis by simp
next
  case True
  then obtain c0 s0 where s: "s = c0 # s0" and c0: "lower c0 = (if base = 16 then 112 else 101)"
    by (cases s) auto
  from c0 have c0s: "c0 \<noteq> CHR ''s''" using lower_s by (auto split: if_splits)
  from assms True s obtain c1 cs1 where s0: "s0 = c1 # cs1"
    by (cases s0) (auto simp: read_exponent_def)
  define r where "r = (if c1 = CHR ''+'' \<or> c1 = CHR ''-'' then cs1 else c1 # cs1)"
  from assms True s s0 obtain e1 u1 where el: "exponent_loop 0 False r = (e1, u1, rest)"
    by (auto simp: read_exponent_def r_def Let_def split: if_splits prod.splits)
  from exponent_loop_consumed [OF el] obtain pre where pre: "r = pre @ rest" "CHR ''s'' \<notin> set pre"
    by blast
  show ?thesis
  proof (cases "c1 = CHR ''+'' \<or> c1 = CHR ''-''")
    case True
    then have "s = (c0 # c1 # pre) @ rest \<and> CHR ''s'' \<notin> set (c0 # c1 # pre)"
      using s s0 pre c0s r_def by auto
    then show ?thesis by blast
  next
    case False
    then have "s = (c0 # pre) @ rest \<and> CHR ''s'' \<notin> set (c0 # pre)"
      using s s0 pre c0s r_def by auto
    then show ?thesis by blast
  qed
qed

lemma readFloat_consumed:
  assumes "readFloat s = Some (neg, hex, m, x, rest)"
  shows "\<exists>pre. s = pre @ rest \<and> CHR ''s'' \<notin> set pre"
proof -
  from assms have ne: "s \<noteq> []" by (auto simp: readFloat_def)
  define s1 where "s1 = (if hd s = CHR ''+'' \<or> hd s = CHR ''-'' then tl s else s)"
  define hx where "hx = (length s1 > 2 \<and> s1 ! 0 = CHR ''0'' \<and> lower (s1 ! 1) = 120)"
  define s2 where "s2 = (if hx then drop 2 s1 else s1)"
  define base :: int where "base = (if hx then 16 else 10)"
  obtain st s3 where ml: "mantissa_loop base
      \<lparr>sawdot = False, sawdigits = False, nd = 0, dp = 0, mant = 0, underscores = False\<rparr> s2 = (st, s3)"
    by (cases "mantissa_loop base
      \<lparr>sawdot = False, sawdigits = False, nd = 0, dp = 0, mant = 0, underscores = False\<rparr> s2")
  from assms ne ml obtain e u where re: "read_exponent base s3 = Some (e, u, rest)"
    unfolding readFloat_def s1_def [symmetric] Let_def hx_def [symmetric] s2_def [symmetric]
      base_def [symmetric]
    by (auto split: if_splits option.splits)
  from mantissa_loop_consumed [OF ml] obtain p2 where p2: "s2 = p2 @ s3" "CHR ''s'' \<notin> set p2"
    by blast
  from read_exponent_consumed [OF re] obtain p3 where p3: "s3 = p3 @ rest" "CHR ''s'' \<notin> set p3"
    by blast
  have "\<exists>p1. s1 = p1 @ s2 \<and> CHR ''s'' \<notin> set p1"
  proof (cases hx)
    case False
    then show ?thesis by (simp add: s2_def)
  next
    case True
    then have l: "length s1 > 2" "s1 ! 0 = CHR ''0''" "lower (s1 ! 1) = 120" by (simp_all add: hx_def)
    then have "s1 = take 2 s1 @ s2" using True by (simp add: s2_def)
    moreover have "take 2 s1 = [s1 ! 0, s1 ! 1]" using l(1)
      by (cases s1; cases "tl s1") auto
    moreover have "s1 ! 1 \<noteq> CHR ''s''" using l(3) lower_s by auto
    ultimately have "s1 = [s1 ! 0, s1 ! 1] @ s2 \<and> CHR ''s'' \<notin> set [s1 ! 0, s1 ! 1]"
      using l(2) by simp
    then show ?thesis by blast
  qed
  then obtain p1 where p1: "s1 = p1 @ s2" "CHR ''s'' \<notin> set p1" by blast
  have "\<exists>p0. s = p0 @ s1 \<and> CHR ''s'' \<notin> set p0"
  proof (cases "hd s = CHR ''+'' \<or> hd s = CHR ''-''")
    case False
    then show ?thesis by (simp add: s1_def)
  next
    case True
    then have "s = [hd s] @ s1 \<and> CHR ''s'' \<notin> set [hd s]" using ne by (auto simp: s1_def)
    then show ?thesis by blast
  qed
  then obtain p0 where p0: "s = p0 @ s1" "CHR ''s'' \<notin> set p0" by blast
  have "s = (p0 @ p1 @ p2 @ p3) @ rest \<and> CHR ''s'' \<notin> set (p0 @ p1 @ p2 @ p3)"
    using p0 p1 p2 p3 by simp
  then show ?thesis by blast
qed

lemma commonPrefix_consumed:
  "CHR ''s'' \<notin> set p \<Longrightarrow> CHR ''s'' \<notin> set (take (commonPrefixLenIgnoreCase s p) s)"
proof (induction s p rule: commonPrefixLenIgnoreCase.induct)
  case (1 c cs p ps)
  then show ?case by (auto simp: byte_def)
qed simp_all

lemma commonPrefix_le: "commonPrefixLenIgnoreCase s p \<le> length p"
  by (induction s p rule: commonPrefixLenIgnoreCase.induct) simp_all

lemma special_inf_no_s:
  assumes "special_inf neg k s = Some (f, n)" "n = k + length s"
  shows "CHR ''s'' \<notin> set s"
proof -
  define n0 where "n0 = commonPrefixLenIgnoreCase s ''infinity''"
  from assms have "length s \<le> n0"
    by (auto simp: special_inf_def Let_def n0_def [symmetric] split: if_splits)
  then have "take n0 s = s" by simp
  moreover have "CHR ''s'' \<notin> set (take n0 s)"
    unfolding n0_def by (rule commonPrefix_consumed) simp
  ultimately show ?thesis by simp
qed

lemma special_no_s:
  assumes "special s = Some (f, n)" "n = length s"
  shows "CHR ''s'' \<notin> set s"
proof (cases s)
  case Nil
  then show ?thesis by simp
next
  case (Cons c cs)
  consider (sign) "c = CHR ''+'' \<or> c = CHR ''-''"
    | (inf) "\<not> (c = CHR ''+'' \<or> c = CHR ''-'')" "c = CHR ''i'' \<or> c = CHR ''I''"
    | (nan) "\<not> (c = CHR ''+'' \<or> c = CHR ''-'')" "\<not> (c = CHR ''i'' \<or> c = CHR ''I'')"
    by blast
  then show ?thesis
  proof cases
    case sign
    with assms Cons have "special_inf (c = CHR ''-'') 1 cs = Some (f, n)" "n = 1 + length cs"
      by (simp_all add: special_def)
    then have "CHR ''s'' \<notin> set cs" by (rule special_inf_no_s)
    with sign Cons show ?thesis by auto
  next
    case inf
    with assms Cons have "special_inf False 0 s = Some (f, n)" "n = 0 + length s"
      by (simp_all add: special_def)
    then show ?thesis by (rule special_inf_no_s)
  next
    case nan
    with assms Cons have "commonPrefixLenIgnoreCase s ''nan'' = 3" "length s = 3"
      by (auto simp: special_def split: if_splits)
    then have "take (commonPrefixLenIgnoreCase s ''nan'') s = s" by simp
    moreover have "CHR ''s'' \<notin> set (take (commonPrefixLenIgnoreCase s ''nan'') s)"
      by (rule commonPrefix_consumed) simp
    ultimately show ?thesis by simp
  qed
qed

lemma ParseFloat_no_s:
  assumes "CHR ''s'' \<in> set s"
  shows "ParseFloat s = None"
proof (cases "special s")
  case (Some fn)
  obtain f n where fn: "fn = (f, n)" by (cases fn)
  from special_no_s [of s f n] Some fn assms have "n \<noteq> length s" by auto
  with Some fn show ?thesis by (simp add: ParseFloat_def)
next
  case None
  show ?thesis
  proof (cases "readFloat s")
    case None
    with \<open>special s = None\<close> show ?thesis by (simp add: ParseFloat_def)
  next
    case (Some t)
    obtain neg hex m x rest where t: "t = (neg, hex, m, x, rest)" by (cases t)
    from readFloat_consumed [of s neg hex m x rest] Some t assms have "rest \<noteq> []" by auto
    with Some t \<open>special s = None\<close> show ?thesis by (simp add: ParseFloat_def)
  qed
qed

section \<open>The response time of a message\<close>

lemma HasSuffix_ms_last: "HasSuffix s ''ms'' \<Longrightarrow> s \<noteq> [] \<and> last s = CHR ''s''"
proof -
  assume h: "HasSuffix s ''ms''"
  then have "s = take (length s - 2) s @ ''ms''"
    by (metis HasSuffix_def append_take_drop_id length_Cons list.size(3) numeral_2_eq_2)
  then obtain p where "s = p @ ''ms''" ..
  then show ?thesis by simp
qed

lemma HasSuffix_space_ms: "HasSuffix s '' ms'' \<Longrightarrow> HasSuffix s ''ms''"
proof -
  assume h: "HasSuffix s '' ms''"
  then have "s = take (length s - 3) s @ '' ms''"
    by (metis HasSuffix_def append_take_drop_id length_Cons list.size(3) numeral_3_eq_3)
  then obtain p where "s = p @ '' ms''" ..
  then show ?thesis by (simp add: HasSuffix_def)
qed

text \<open>
  A message that ends in \<^verbatim>\<open>ms\<close> but not in \<^verbatim>\<open> ms\<close> is left as it is by
  \<^verbatim>\<open>TrimSuffix\<close>; its last word ends in \<^verbatim>\<open>s\<close>, and \<^verbatim>\<open>ParseFloat\<close> rejects it.
\<close>

lemma ms_without_space_rejected:
  assumes "HasSuffix msg ''ms''" "\<not> HasSuffix msg '' ms''"
  shows "ParseFloat (last (Split (TrimSuffix msg '' ms'') (CHR '' ''))) = None"
proof -
  from assms(1) have "msg \<noteq> []" "last msg = CHR ''s''" by (simp_all add: HasSuffix_ms_last)
  then have "last (genSplit msg (CHR '' '') k) \<noteq> [] \<and> last (last (genSplit msg (CHR '' '') k)) = CHR ''s''" for k
    using last_genSplit [of msg "CHR '' ''" k] by simp
  then have "CHR ''s'' \<in> set (last (Split msg (CHR '' '')))"
    unfolding Split_genSplit by (metis last_in_set)
  then have "ParseFloat (last (Split msg (CHR '' ''))) = None" by (rule ParseFloat_no_s)
  then show ?thesis using assms(2) by (simp add: TrimSuffix_def)
qed

lemma record_response_time_eq:
  "ResponseTime (record_response_time e r) =
     (if HasSuffix (message e) '' ms'' then
        (case ParseFloat (last (Split (TrimSuffix (message e) '' ms'') (CHR '' ''))) of
           Some n \<Rightarrow> ResponseTime r @ [n]
         | None \<Rightarrow> ResponseTime r)
      else ResponseTime r)"
proof (cases "HasSuffix (message e) ''ms''")
  case False
  then have "\<not> HasSuffix (message e) '' ms''" using HasSuffix_space_ms by blast
  with False show ?thesis by (simp add: record_response_time_def)
next
  case True
  show ?thesis
  proof (cases "HasSuffix (message e) '' ms''")
    case True
    with \<open>HasSuffix (message e) ''ms''\<close> show ?thesis
      by (simp add: record_response_time_def Let_def split: option.splits)
  next
    case False
    with True ms_without_space_rejected [of "message e"] show ?thesis
      by (simp add: record_response_time_def Let_def)
  qed
qed

section \<open>The average and the most frequent message\<close>

lemma total_loop_foldl: "total_loop acc xs = foldl fadd acc xs"
  by (induction xs arbitrary: acc) simp_all

lemma print_average_eq:
  "print_average r =
     (if ResponseTime r = [] then []
      else [''Average Response Time: '' @ format_f2 (average (ResponseTime r)) @ '' ms'' @ [CHR 0x0A]])"
  by (simp add: print_average_def Let_def)

lemma freqCount_loop_map: "freqCount_loop m ks acc = acc @ map (map_get m) ks"
  by (induction ks arbitrary: acc) simp_all

lemma sorted_le_last: "sorted ys \<Longrightarrow> y \<in> set ys \<Longrightarrow> y \<le> last ys"
  for ys :: "int list"
  by (induction ys) auto

lemma freqMsg_loop_foldl:
  "freqCount \<noteq> [] \<Longrightarrow>
   freqMsg_loop m freqCount ks msg =
     Inr (foldl (\<lambda>acc k. if map_get m k = last freqCount then k else acc) msg ks)"
  by (induction ks arbitrary: msg) (simp_all add: last_conv_nth)

lemma foldl_pick:
  "\<exists>k\<in>set ks. P k \<Longrightarrow>
   foldl (\<lambda>acc k. if P k then k else acc) msg ks \<in> set ks \<and>
   P (foldl (\<lambda>acc k. if P k then k else acc) msg ks)"
  by (induction ks rule: rev_induct) auto

lemma foldl_pick_none:
  "\<forall>k\<in>set ks. \<not> P k \<Longrightarrow> foldl (\<lambda>acc k. if P k then k else acc) msg ks = msg"
  by (induction ks rule: rev_induct) auto

lemma most_frequent_nonempty:
  assumes o1: "range_order (MsgFrequency r) ks1" and o2: "range_order (MsgFrequency r) ks2"
    and ne: "map_keys (MsgFrequency r) \<noteq> {}"
  shows "\<exists>k. most_frequent ks1 ks2 r = Inr k \<and> k \<in> map_keys (MsgFrequency r) \<and>
           (\<forall>k'\<in>map_keys (MsgFrequency r). map_get (MsgFrequency r) k' \<le> map_get (MsgFrequency r) k)"
proof -
  let ?m = "MsgFrequency r"
  let ?fc = "sort (map (map_get ?m) ks1)"
  from o1 o2 have s1: "set ks1 = map_keys ?m" and s2: "set ks2 = map_keys ?m"
    by (simp_all add: range_order_def)
  from ne s1 have "ks1 \<noteq> []" by auto
  then have "length ?fc \<noteq> 0" by simp
  then have fc: "?fc \<noteq> []" by (simp only: length_0_conv not_False_eq_True)
  then have "last ?fc \<in> set ?fc" by (rule last_in_set)
  then have "last ?fc \<in> map_get ?m ` set ks2" using s1 s2 by simp
  then have ex: "\<exists>k\<in>set ks2. map_get ?m k = last ?fc" by auto
  let ?k = "foldl (\<lambda>acc k. if map_get ?m k = last ?fc then k else acc) [] ks2"
  from foldl_pick [of ks2 "\<lambda>k. map_get ?m k = last ?fc" "[]", OF ex]
  have k: "?k \<in> set ks2" "map_get ?m ?k = last ?fc" by simp_all
  have mf: "most_frequent ks1 ks2 r = Inr ?k"
    using fc by (simp add: most_frequent_def freqCount_loop_map freqMsg_loop_foldl)
  have "map_get ?m k' \<le> last ?fc" if "k' \<in> map_keys ?m" for k'
  proof -
    from that s1 have "map_get ?m k' \<in> set ?fc" by simp
    then show ?thesis using sorted_le_last [of ?fc] by simp
  qed
  with mf k s2 show ?thesis by auto
qed

lemma most_frequent_empty:
  assumes "range_order (MsgFrequency r) ks1" "range_order (MsgFrequency r) ks2"
    "map_keys (MsgFrequency r) = {}"
  shows "most_frequent ks1 ks2 r = Inr []"
  using assms by (simp add: range_order_def most_frequent_def)

lemma Print_no_panic: "most_frequent ks1 ks2 r = Inr k \<Longrightarrow> snd (Print ks1 ks2 r) = None"
  by (simp add: Print_def Let_def)

section \<open>The \<^verbatim>\<open>float64\<close> operations against exact arithmetic\<close>

text \<open>
  \<open>round_float64\<close> returns a number within half a unit in the last place of the number it
  rounds; from that, the error of an addition, of a division, of the sum of a list and
  of the average, and what \<^verbatim>\<open>%.2f\<close> prints.
\<close>

lemma bit_length_bounds:
  "0 < n \<Longrightarrow> 1 \<le> bit_length n \<and> 2 ^ nat (bit_length n - 1) \<le> n \<and> n < 2 ^ nat (bit_length n)"
proof (induction n rule: bit_length.induct)
  case (1 n)
  show ?case
  proof (cases "n div 2 = 0")
    case True
    with 1 have "n = 1" by presburger
    then show ?thesis by (simp add: bit_length.simps)
  next
    case False
    with 1 have p: "0 < n div 2" by presburger
    from 1 p have ih: "1 \<le> bit_length (n div 2)" "2 ^ nat (bit_length (n div 2) - 1) \<le> n div 2"
      "n div 2 < 2 ^ nat (bit_length (n div 2))" by simp_all
    have bl: "bit_length n = 1 + bit_length (n div 2)" using 1(2) by (subst bit_length.simps) simp
    have e1: "nat (bit_length n - 1) = Suc (nat (bit_length (n div 2) - 1))" using bl ih(1) by simp
    have e2: "nat (bit_length n) = Suc (nat (bit_length (n div 2)))" using bl ih(1) by simp
    have "2 * (n div 2) \<le> n" "n < 2 * (n div 2) + 2" by presburger+
    with ih have "2 * 2 ^ nat (bit_length (n div 2) - 1) \<le> n" "n < 2 * 2 ^ nat (bit_length (n div 2))"
      by linarith+
    then show ?thesis unfolding e1 e2 using ih(1) bl by simp
  qed
qed

lemma scaled_value:
  assumes "scaled n d s = (n', d')" "0 < d"
  shows "0 < d' \<and> (of_int n' / of_int d' :: rat) = of_int n / of_int d * 2 powi s"
  using assms by (auto simp: scaled_def power_int_def field_simps split: if_splits)

lemma round_half_even_error:
  assumes "0 < d"
  shows "\<bar>of_int (round_half_even n d) - (of_int n / of_int d :: rat)\<bar> \<le> 1 / 2"
proof -
  define q where "q = n div d"
  define r where "r = n mod d"
  have n: "n = d * q + r" by (simp add: q_def r_def)
  have r: "0 \<le> r" "r < d" using assms by (simp_all add: r_def)
  have dv: "(of_int n / of_int d :: rat) = of_int q + of_int r / of_int d"
    using assms by (simp add: n field_simps)
  have rd: "0 \<le> (of_int r / of_int d :: rat)" "(of_int r / of_int d :: rat) < 1"
    using r assms by simp_all
  show ?thesis
  proof (cases "2 * r > d \<or> (2 * r = d \<and> q mod 2 = 1)")
    case True
    then have v: "round_half_even n d = q + 1" by (simp add: round_half_even_def q_def r_def Let_def)
    from True have "d \<le> 2 * r" by auto
    then have "(of_int d :: rat) \<le> 2 * of_int r" by (metis of_int_le_iff of_int_mult of_int_numeral)
    then have "(1 / 2 :: rat) \<le> of_int r / of_int d" using assms by (simp add: field_simps)
    then show ?thesis unfolding v dv using rd by simp
  next
    case False
    then have v: "round_half_even n d = q" by (simp add: round_half_even_def q_def r_def Let_def)
    from False have "2 * r \<le> d" by auto
    then have "2 * (of_int r :: rat) \<le> of_int d" by (metis of_int_le_iff of_int_mult of_int_numeral)
    then have "of_int r / of_int d \<le> (1 / 2 :: rat)" using assms by (simp add: field_simps)
    then show ?thesis unfolding v dv using rd by simp
  qed
qed


lemma of_int_pow2: "0 \<le> k \<Longrightarrow> (of_int (2 ^ nat k) :: rat) = 2 powi k"
  by (simp add: power_int_def)

lemma ratio_bounds:
  assumes "0 < n" "0 < d"
  shows "2 powi (bit_length n - 1 - bit_length d) < (of_int n / of_int d :: rat)"
    and "(of_int n / of_int d :: rat) < 2 powi (bit_length n - bit_length d + 1)"
proof -
  from bit_length_bounds [OF assms(1)]
  have n: "1 \<le> bit_length n" "2 ^ nat (bit_length n - 1) \<le> n" "n < 2 ^ nat (bit_length n)" by simp_all
  from bit_length_bounds [OF assms(2)]
  have d: "1 \<le> bit_length d" "2 ^ nat (bit_length d - 1) \<le> d" "d < 2 ^ nat (bit_length d)" by simp_all
  have n1: "(2 powi (bit_length n - 1) :: rat) \<le> of_int n"
    using n(2) n(1) of_int_pow2 [of "bit_length n - 1"] by (metis diff_ge_0_iff_ge of_int_le_iff)
  have n2: "(of_int n :: rat) < 2 powi (bit_length n)"
    using n(3) n(1) of_int_pow2 [of "bit_length n"] by (metis of_int_less_iff order_trans zero_le_one)
  have d1: "(2 powi (bit_length d - 1) :: rat) \<le> of_int d"
    using d(2) d(1) of_int_pow2 [of "bit_length d - 1"] by (metis diff_ge_0_iff_ge of_int_le_iff)
  have d2: "(of_int d :: rat) < 2 powi (bit_length d)"
    using d(3) d(1) of_int_pow2 [of "bit_length d"] by (metis of_int_less_iff order_trans zero_le_one)
  have dpos: "(0 :: rat) < of_int d" using assms by simp
  have npos: "(0 :: rat) < of_int n" using assms by simp
  have "(2 powi (bit_length n - 1 - bit_length d) :: rat) = 2 powi (bit_length n - 1) / 2 powi (bit_length d)"
    by (simp add: power_int_diff)
  also have "\<dots> \<le> of_int n / 2 powi (bit_length d)"
    using n1 by (simp add: divide_right_mono)
  also have "\<dots> < of_int n / of_int d"
    using d2 dpos npos by (simp add: divide_strict_left_mono)
  finally show "2 powi (bit_length n - 1 - bit_length d) < (of_int n / of_int d :: rat)" .
  have "(of_int n / of_int d :: rat) \<le> of_int n / 2 powi (bit_length d - 1)"
    using d1 npos by (intro frac_le) simp_all
  also have "\<dots> < 2 powi (bit_length n) / 2 powi (bit_length d - 1)"
    using n2 by (simp add: divide_strict_right_mono)
  also have "\<dots> = 2 powi (bit_length n - bit_length d + 1)"
  proof -
    have e: "bit_length n - bit_length d + 1 = bit_length n - (bit_length d - 1)" by simp
    show ?thesis unfolding e by (rule sym, rule power_int_diff) simp
  qed
  finally show "(of_int n / of_int d :: rat) < 2 powi (bit_length n - bit_length d + 1)" .
qed

lemma div_ge_iff:
  assumes "0 < d"
  shows "k \<le> n div d \<longleftrightarrow> (of_int k :: rat) \<le> of_int n / of_int d"
proof -
  have "n div d = \<lfloor>(of_int n / of_int d :: rat)\<rfloor>" by (simp add: floor_divide_of_int_eq)
  then show ?thesis by (simp add: le_floor_iff)
qed

lemma round_float64_Finite:
  fixes t :: rat
  assumes n: "0 < n" and d: "0 < d"
    and t: "t = of_int n / of_int d * 2 powi e"
    and r: "round_float64 s n d e = Finite s' m q"
  shows "s' = s \<and> 0 \<le> m \<and> m < 2 ^ 53 \<and> - 1074 \<le> q \<and> q \<le> 971 \<and> (q = - 1074 \<or> 2 ^ 52 \<le> m)
    \<and> \<bar>of_int m * 2 powi q - t\<bar> \<le> 2 powi q / 2
    \<and> (- 1074 < q \<longrightarrow> \<bar>of_int m * 2 powi q - t\<bar> \<le> t / 2 ^ 53)"
proof -
  define bn where "bn = bit_length n"
  define bd where "bd = bit_length d"
  define q0 where "q0 = max (bn - bd + e - 53) (- 1074)"
  obtain n0 d0 where s0: "scaled n d (e - q0) = (n0, d0)" by (cases "scaled n d (e - q0)") 
  define q1 where "q1 = (if n0 div d0 \<ge> 2 ^ 53 then q0 + 1 else q0)"
  obtain n1 d1 where s1: "scaled n d (e - q1) = (n1, d1)" by (cases "scaled n d (e - q1)") 
  define m1 where "m1 = round_half_even n1 d1"
  define x0 :: rat where "x0 = t * 2 powi (- q0)"
  define x1 :: rat where "x1 = t * 2 powi (- q1)"
  have tpos: "0 < t" using n d by (simp add: t)
  from scaled_value [OF s0 d] have d0: "0 < d0" and v0: "(of_int n0 / of_int d0 :: rat) = x0"
    by (simp_all add: x0_def t power_int_diff power_int_minus field_simps)
  from scaled_value [OF s1 d] have d1: "0 < d1" and v1: "(of_int n1 / of_int d1 :: rat) = x1"
    by (simp_all add: x1_def t power_int_diff power_int_minus field_simps)
  have res: "round_float64 s n d e =
      (if m1 = 2 ^ 53 then (if q1 + 1 > 971 then Infinity s else Finite s (2 ^ 52) (q1 + 1))
       else (if q1 > 971 then Infinity s else Finite s m1 q1))"
    using n unfolding round_float64_def Let_def bn_def [symmetric] bd_def [symmetric] q0_def [symmetric]
      s0 prod.case q1_def [symmetric] s1 m1_def [symmetric]
    by simp
  have q0: "- 1074 \<le> q0" by (simp add: q0_def)
  have q1: "- 1074 \<le> q1" using q0 by (simp add: q1_def)
  have x0e: "x0 = of_int n / of_int d * 2 powi (e - q0)"
    by (simp add: x0_def t power_int_diff power_int_minus field_simps)
  have rpos: "(0 :: rat) < of_int n / of_int d" using n d by simp
  have A: "x0 < 2 ^ 54"
  proof -
    have "e - q0 \<le> 53 - (bn - bd)" by (simp add: q0_def)
    then have "(2 powi (e - q0) :: rat) \<le> 2 powi (53 - (bn - bd))" by (intro power_int_increasing) simp_all
    then have "x0 \<le> of_int n / of_int d * 2 powi (53 - (bn - bd))"
      unfolding x0e using rpos by (intro mult_left_mono) simp_all
    also have "\<dots> < 2 powi (bn - bd + 1) * 2 powi (53 - (bn - bd))"
      using ratio_bounds(2) [OF n d] by (intro mult_strict_right_mono) (simp_all add: bn_def bd_def)
    also have "\<dots> = 2 powi 54"
      by (subst power_int_add [symmetric]) simp_all
    finally show ?thesis by simp
  qed
  have B: "2 ^ 52 < x0" if "- 1074 < q0"
  proof -
    from that have "e - q0 = 53 - (bn - bd)" by (simp add: q0_def max_def split: if_splits)
    then have "x0 = of_int n / of_int d * 2 powi (53 - (bn - bd))" by (simp add: x0e)
    moreover have "2 powi (bn - 1 - bd) * 2 powi (53 - (bn - bd)) < of_int n / of_int d * (2 powi (53 - (bn - bd)) :: rat)"
      using ratio_bounds(1) [OF n d] by (intro mult_strict_right_mono) (simp_all add: bn_def bd_def)
    moreover have "2 powi (bn - 1 - bd) * 2 powi (53 - (bn - bd)) = (2 powi 52 :: rat)"
      by (subst power_int_add [symmetric]) simp_all
    ultimately show ?thesis by simp
  qed
  have C: "2 ^ 53 \<le> n0 div d0 \<longleftrightarrow> 2 ^ 53 \<le> x0"
    using div_ge_iff [OF d0, of "2 ^ 53" n0] by (simp add: v0)
  have x10: "x1 = (if 2 ^ 53 \<le> x0 then x0 / 2 else x0)"
  proof (cases "2 ^ 53 \<le> x0")
    case True
    then have "q1 = q0 + 1" using C by (simp add: q1_def)
    moreover have "(2 powi (- (q0 + 1)) :: rat) = 2 powi (- q0) / 2"
      using power_int_diff [of "2 :: rat" "- q0" 1] by simp
    ultimately have "x1 = x0 / 2" by (simp add: x1_def x0_def)
    with True show ?thesis by simp
  next
    case False
    then have "q1 = q0" using C by (simp add: q1_def)
    with False show ?thesis by (simp add: x1_def x0_def)
  qed
  have D1: "x1 < 2 ^ 53" using A by (simp add: x10)
  have D2: "2 ^ 52 \<le> x1" if "- 1074 < q1" 
  proof (cases "2 ^ 53 \<le> x0")
    case True then show ?thesis by (simp add: x10)
  next
    case False
    then have "q1 = q0" using C by (simp add: q1_def)
    with that B have "2 ^ 52 < x0" by simp
    with False show ?thesis by (simp add: x10)
  qed
  have E: "\<bar>of_int m1 - x1\<bar> \<le> 1 / 2"
    using round_half_even_error [OF d1, of n1] by (simp add: m1_def v1)
  have x1pos: "0 < x1" using tpos by (simp add: x1_def)
  have F1: "0 \<le> m1"
  proof -
    from E x1pos have "(- 1 :: rat) < of_int m1" by linarith
    then have "(of_int (- 1) :: rat) < of_int m1" by simp
    then have "- 1 < m1" by (simp only: of_int_less_iff)
    then show ?thesis by simp
  qed
  have F2: "m1 \<le> 2 ^ 53"
  proof -
    from E D1 have "(of_int m1 :: rat) < 2 ^ 53 + 1" by linarith
    then have "(of_int m1 :: rat) < of_int (2 ^ 53 + 1)" by simp
    then have "m1 < 2 ^ 53 + 1" by (simp only: of_int_less_iff)
    then show ?thesis by simp
  qed
  have F3: "2 ^ 52 \<le> m1" if "- 1074 < q1"
  proof -
    from E D2 [OF that] have "(2 ^ 52 - 1 :: rat) < of_int m1" by linarith
    then have "(of_int (2 ^ 52 - 1) :: rat) < of_int m1" by simp
    then have "2 ^ 52 - 1 < m1" by (simp only: of_int_less_iff)
    then show ?thesis by simp
  qed
  have tx: "t = x1 * 2 powi q1" by (simp add: x1_def power_int_minus)
  have p1: "(0 :: rat) < 2 powi q1" by (simp add: zero_less_power_int)
  have G: "\<bar>of_int m1 * 2 powi q1 - t\<bar> \<le> 2 powi q1 / 2"
  proof -
    have "\<bar>of_int m1 * 2 powi q1 - t\<bar> = \<bar>of_int m1 - x1\<bar> * 2 powi q1"
      using p1 by (simp add: tx abs_mult left_diff_distrib [symmetric])
    also have "\<dots> \<le> 1 / 2 * 2 powi q1" using E p1 by (intro mult_right_mono) simp_all
    finally show ?thesis by simp
  qed
  have H: "2 powi q1 / 2 \<le> t / 2 ^ 53" if "2 ^ 52 \<le> x1"
  proof -
    have "(2 powi q1 / 2 :: rat) = 2 ^ 52 * 2 powi q1 / 2 ^ 53" by simp
    also have "\<dots> \<le> x1 * 2 powi q1 / 2 ^ 53" using that p1 by (intro divide_right_mono mult_right_mono) simp_all
    finally show ?thesis by (simp add: tx)
  qed
  show ?thesis
  proof (cases "m1 = 2 ^ 53")
    case True
    with r res have fin: "q1 + 1 \<le> 971" "s' = s" "m = 2 ^ 52" "q = q1 + 1" by (auto split: if_splits)
    have val: "(of_int m * 2 powi q :: rat) = of_int m1 * 2 powi q1"
      by (simp add: fin True power_int_add)
    have "(of_int m1 :: rat) = 2 ^ 53" by (simp only: True of_int_power of_int_numeral)
    with E have "\<bar>2 ^ 53 - x1\<bar> \<le> 1 / 2" by (simp only:)
    moreover have "(2 ^ 52 :: rat) \<le> 2 ^ 53 - 1 / 2" by simp
    ultimately have "2 ^ 52 \<le> x1" by linarith
    from H [OF this] G have "\<bar>of_int m1 * 2 powi q1 - t\<bar> \<le> t / 2 ^ 53" by simp
    moreover have "(2 powi q1 / 2 :: rat) \<le> 2 powi q / 2" by (simp add: fin power_int_add)
    ultimately show ?thesis unfolding val using fin G q1 by simp
  next
    case False
    with r res have fin: "q1 \<le> 971" "s' = s" "m = m1" "q = q1" by (auto split: if_splits)
    have rel: "- 1074 < q1 \<longrightarrow> \<bar>of_int m1 * 2 powi q1 - t\<bar> \<le> t / 2 ^ 53"
      using H [OF D2] G by auto
    have nrm: "q1 = - 1074 \<or> 2 ^ 52 \<le> m1"
    proof (cases "- 1074 < q1")
      case True
      then show ?thesis using F3 by simp
    next
      case False
      with q1 show ?thesis by simp
    qed
    have lt: "m1 < 2 ^ 53" using F2 False by simp
    show ?thesis unfolding fin using fin(1) G q1 F1 lt nrm rel by (intro conjI) simp_all
  qed
qed

lemma of_int_close:
  assumes "\<bar>(of_int a :: rat) - of_int b\<bar> \<le> 1 / 2"
  shows "a = b"
proof -
  from assms have "\<bar>(of_int (a - b) :: rat)\<bar> < of_int 1" by simp
  then have "\<bar>a - b\<bar> < 1" by (metis of_int_abs of_int_less_iff)
  then show ?thesis by simp
qed

lemma round_float64_is_float64:
  "0 \<le> n \<Longrightarrow> 0 < d \<Longrightarrow> is_float64 (round_float64 s n d e)"
proof (cases "n = 0")
  case True
  then show ?thesis by (simp add: round_float64_def)
next
  case False
  assume "0 \<le> n" "0 < d"
  with False have n: "0 < n" by simp
  show ?thesis
  proof (cases "round_float64 s n d e")
    case (Finite s' m q)
    from round_float64_Finite [OF n \<open>0 < d\<close> refl Finite] show ?thesis by (simp add: Finite)
  qed simp_all
qed

text \<open>Rounding a multiple of the smallest positive number is exact or has a small relative error.\<close>

lemma round_float64_integer:
  assumes n: "0 < n" and g: "- 1074 \<le> g"
    and r: "round_float64 s n 1 g = Finite s' m q"
  shows "\<bar>of_int m * 2 powi q - of_int n * 2 powi g\<bar> \<le> (of_int n * 2 powi g / 2 ^ 53 :: rat)"
proof -
  define t :: rat where "t = of_int n * 2 powi g"
  have t: "t = of_int n / of_int 1 * 2 powi g" by (simp add: t_def)
  from round_float64_Finite [OF n _ t r]
  have q: "- 1074 \<le> q" and a: "\<bar>of_int m * 2 powi q - t\<bar> \<le> 2 powi q / 2"
    and b: "- 1074 < q \<longrightarrow> \<bar>of_int m * 2 powi q - t\<bar> \<le> t / 2 ^ 53" by simp_all
  show ?thesis
  proof (cases "- 1074 < q")
    case True
    with b show ?thesis by (simp add: t_def)
  next
    case False
    with q have q': "q = - 1074" by simp
    have "t = of_int (n * 2 ^ nat (g + 1074)) * 2 powi q"
    proof -
      have "(of_int (2 ^ nat (g + 1074)) :: rat) = 2 powi (g + 1074)"
        using g by (intro of_int_pow2) simp
      then have "(of_int (n * 2 ^ nat (g + 1074)) :: rat) = of_int n * 2 powi (g + 1074)"
        by (simp only: of_int_mult)
      moreover have "(2 powi (g + 1074) * 2 powi q :: rat) = 2 powi g"
        by (subst power_int_add [symmetric]) (simp_all add: q')
      ultimately show ?thesis by (simp only: t_def mult.assoc)
    qed
    then obtain k where k: "t = of_int k * 2 powi q" by blast
    have p: "(0 :: rat) < 2 powi q" by (simp add: zero_less_power_int)
    have "\<bar>of_int m * 2 powi q - t\<bar> = \<bar>of_int m - of_int k\<bar> * 2 powi q"
      using p by (simp add: k abs_mult left_diff_distrib [symmetric])
    with a have "\<bar>(of_int m :: rat) - of_int k\<bar> * 2 powi q \<le> 1 / 2 * 2 powi q" by simp
    with p have "\<bar>(of_int m :: rat) - of_int k\<bar> \<le> 1 / 2" by (simp only: mult_le_cancel_right_pos)
    then have "m = k" by (rule of_int_close)
    then have "of_int m * 2 powi q - t = 0" by (simp add: k)
    moreover have "0 \<le> t" using n by (simp add: t_def)
    ultimately show ?thesis by (simp add: t_def)
  qed
qed

lemma fadd_Finite:
  assumes "fadd a b = Finite s m q"
  obtains sa ma ea sb mb eb where "a = Finite sa ma ea" "b = Finite sb mb eb"
  using assms by (cases a; cases b) (auto split: if_splits)

lemma fdiv_Finite:
  assumes "fdiv a b = Finite s m q"
  obtains sa ma ea where "a = Finite sa ma ea"
  using assms by (cases a; cases b) (auto split: if_splits)

lemma fadd_error:
  assumes ok: "is_float64 a" "is_float64 b" and r: "fadd a b = Finite s m q"
  shows "is_float64 (fadd a b) \<and>
    \<bar>exact_value (fadd a b) - (exact_value a + exact_value b)\<bar> \<le> \<bar>exact_value a + exact_value b\<bar> / 2 ^ 53"
proof -
  from r obtain sa ma ea sb mb eb where a: "a = Finite sa ma ea" and b: "b = Finite sb mb eb"
    by (rule fadd_Finite)
  from ok have oka: "0 \<le> ma" "- 1074 \<le> ea" and okb: "0 \<le> mb" "- 1074 \<le> eb" by (simp_all add: a b)
  show ?thesis
  proof (cases "ma = 0 \<or> mb = 0")
    case True
    then show ?thesis using ok by (auto simp: a b)
  next
    case False
    define g where "g = min ea eb"
    define ca where "ca = (if sa then - 1 else 1) * ma * 2 ^ nat (ea - g)"
    define cb where "cb = (if sb then - 1 else 1) * mb * 2 ^ nat (eb - g)"
    define c where "c = ca + cb"
    have g: "- 1074 \<le> g" "g \<le> ea" "g \<le> eb" using oka okb by (simp_all add: g_def)
    have va: "exact_value a = of_int ca * 2 powi g"
    proof -
      have "(of_int (2 ^ nat (ea - g)) :: rat) * 2 powi g = 2 powi ea"
        using g of_int_pow2 [of "ea - g"] by (simp add: power_int_add [symmetric])
      then show ?thesis by (simp add: a ca_def mult.assoc)
    qed
    have vb: "exact_value b = of_int cb * 2 powi g"
    proof -
      have "(of_int (2 ^ nat (eb - g)) :: rat) * 2 powi g = 2 powi eb"
        using g of_int_pow2 [of "eb - g"] by (simp add: power_int_add [symmetric])
      then show ?thesis by (simp add: b cb_def mult.assoc)
    qed
    have sum: "exact_value a + exact_value b = of_int c * 2 powi g"
      by (simp add: va vb c_def distrib_right)
    have res: "fadd a b = (if c = 0 then Finite False 0 (- 1074) else round_float64 (c < 0) \<bar>c\<bar> 1 g)"
      using False by (simp add: a b Let_def g_def ca_def cb_def c_def)
    show ?thesis
    proof (cases "c = 0")
      case True
      then show ?thesis by (simp add: res sum)
    next
      case c: False
      then have rr: "round_float64 (c < 0) \<bar>c\<bar> 1 g = Finite s m q" using r res by simp
      have cpos: "0 < \<bar>c\<bar>" using c by simp
      from round_float64_integer [OF cpos g(1) rr]
      have e: "\<bar>of_int m * 2 powi q - of_int \<bar>c\<bar> * 2 powi g\<bar> \<le> (of_int \<bar>c\<bar> * 2 powi g / 2 ^ 53 :: rat)" .
      from round_float64_Finite [OF cpos _ refl rr] have s: "s = (c < 0)" by simp
      have okr: "is_float64 (fadd a b)"
        using round_float64_is_float64 [of "\<bar>c\<bar>" 1 "c < 0" g] c by (simp add: res)
      have p: "(0 :: rat) < 2 powi g" by (simp add: zero_less_power_int)
      have "\<bar>exact_value (fadd a b) - (exact_value a + exact_value b)\<bar>
          = \<bar>of_int m * 2 powi q - of_int \<bar>c\<bar> * 2 powi g\<bar>"
        unfolding r sum using s by (cases "c < 0") (simp_all add: abs_minus_commute)
      moreover have "\<bar>exact_value a + exact_value b\<bar> = of_int \<bar>c\<bar> * 2 powi g"
        unfolding sum using p by (simp add: abs_mult)
      ultimately show ?thesis using e okr by simp
    qed
  qed
qed

lemma round_float64_steps:
  assumes "n \<noteq> 0" and "q0 = max (bit_length n - bit_length d + e - 53) (- 1074)"
    and "scaled n d (e - q0) = (n0, d0)" and "q1 = (if n0 div d0 \<ge> 2 ^ 53 then q0 + 1 else q0)"
    and "scaled n d (e - q1) = (n1, d1)" and "m = round_half_even n1 d1"
  shows "round_float64 s n d e =
      (if m = 2 ^ 53 then (if q1 + 1 > 971 then Infinity s else Finite s (2 ^ 52) (q1 + 1))
       else (if q1 > 971 then Infinity s else Finite s m q1))"
  using assms(1)
  unfolding round_float64_def Let_def assms(2) [symmetric] assms(3) prod.case assms(4) [symmetric]
    assms(5) assms(6) [symmetric]
  by simp

lemma fdiv_error:
  assumes ok: "is_float64 a" and b: "b = Finite sb mb eb" "0 < mb" and r: "fdiv a b = Finite s m q"
  shows "is_float64 (fdiv a b) \<and>
    \<bar>exact_value (fdiv a b) - exact_value a / exact_value b\<bar>
      \<le> \<bar>exact_value a / exact_value b\<bar> / 2 ^ 53 + 2 powi (- 1075)"
proof -
  from r obtain sa ma ea where a: "a = Finite sa ma ea" by (rule fdiv_Finite)
  from ok have oka: "0 \<le> ma" by (simp add: a)
  have res: "fdiv a b = round_float64 (sa \<noteq> sb) ma mb (ea - eb)" using b by (simp add: a)
  have okr: "is_float64 (fdiv a b)" unfolding res using oka b(2) by (rule round_float64_is_float64)
  have p: "(0 :: rat) \<le> 2 powi (- 1075)" by simp
  show ?thesis
  proof (cases "ma = 0")
    case True
    then have "fdiv a b = Finite (sa \<noteq> sb) 0 (- 1074)" by (simp add: res round_float64_def)
    moreover have "exact_value a = 0" by (simp add: a True)
    ultimately show ?thesis by simp
  next
    case False
    with oka have ma: "0 < ma" by simp
    define t :: rat where "t = of_int ma / of_int mb * 2 powi (ea - eb)"
    have rr: "round_float64 (sa \<noteq> sb) ma mb (ea - eb) = Finite s m q" using r res by simp
    from round_float64_Finite [OF ma b(2) t_def rr]
    have s: "s = (sa \<noteq> sb)" and q: "- 1074 \<le> q" and e1: "\<bar>of_int m * 2 powi q - t\<bar> \<le> 2 powi q / 2"
      and e2: "- 1074 < q \<longrightarrow> \<bar>of_int m * 2 powi q - t\<bar> \<le> t / 2 ^ 53" by simp_all
    have tpos: "0 < t" using ma b(2) by (simp add: t_def)
    have e: "\<bar>of_int m * 2 powi q - t\<bar> \<le> t / 2 ^ 53 + 2 powi (- 1075)"
    proof (cases "- 1074 < q")
      case True
      with e2 p show ?thesis by linarith
    next
      case False
      with q have "q = - 1074" by simp
      moreover have "(2 powi (- 1074) / 2 :: rat) = 2 powi (- 1075)"
        using power_int_diff [of "2 :: rat" "- 1074" 1] by simp
      ultimately have "\<bar>of_int m * 2 powi q - t\<bar> \<le> 2 powi (- 1075)" using e1 by simp
      moreover have "0 \<le> t / 2 ^ 53" using tpos by simp
      ultimately show ?thesis by linarith
    qed
    have quo: "exact_value a / exact_value b = (if sa \<noteq> sb then - 1 else 1) * t"
      by (simp add: a b t_def power_int_diff)
    then have aq: "\<bar>exact_value a / exact_value b\<bar> = t" using tpos by (simp add: abs_mult)
    have "\<bar>exact_value (fdiv a b) - exact_value a / exact_value b\<bar> = \<bar>of_int m * 2 powi q - t\<bar>"
      unfolding r quo using s by (cases "sa \<noteq> sb") (simp_all add: abs_minus_commute)
    then show ?thesis using e okr aq by simp
  qed
qed

lemma round_half_even_1: "round_half_even n 1 = n"
  by (simp add: round_half_even_def)

lemma float64_of_int_2_53: "float64_of_int (2 ^ 53) = Finite False (2 ^ 52) 1"
  by (simp add: float64_of_int_def round_float64_def bit_length.simps scaled_def round_half_even_def Let_def)

lemma float64_of_int_exact:
  assumes n: "0 < n" "n \<le> 2 ^ 53"
  shows "\<exists>m q. float64_of_int n = Finite False m q \<and> 0 < m \<and> is_float64 (Finite False m q)
     \<and> exact_value (Finite False m q) = of_int n"
proof (cases "n = 2 ^ 53")
  case True
  show ?thesis unfolding True float64_of_int_2_53 by (simp add: power_int_def)
next
  case False
  with n have lt: "n < 2 ^ 53" by simp
  define k where "k = bit_length n"
  from bit_length_bounds [OF n(1)]
  have k: "1 \<le> k" "2 ^ nat (k - 1) \<le> n" "n < 2 ^ nat k" by (simp_all add: k_def)
  have k53: "k \<le> 53"
  proof (rule ccontr)
    assume "\<not> k \<le> 53"
    then have "53 \<le> nat (k - 1)" by simp
    then have "(2 :: int) ^ 53 \<le> 2 ^ nat (k - 1)" by (intro power_increasing) simp_all
    with k(2) lt show False by simp
  qed
  have bl1: "bit_length 1 = 1" by (simp add: bit_length.simps)
  define q0 where "q0 = k - 54"
  have q0: "max (bit_length n - bit_length 1 + 0 - 53) (- 1074) = q0"
    using k(1) by (simp add: k_def [symmetric] bl1 q0_def)
  have s0: "scaled n 1 (0 - q0) = (n * 2 ^ nat (54 - k), 1)"
    using k53 by (simp add: scaled_def q0_def)
  have "(2 :: int) ^ 53 = 2 ^ (nat (k - 1) + nat (54 - k))"
    using k(1) k53 by (simp add: nat_add_distrib [symmetric])
  also have "\<dots> = 2 ^ nat (k - 1) * 2 ^ nat (54 - k)" by (simp add: power_add)
  also have "\<dots> \<le> n * 2 ^ nat (54 - k)" using k(2) by (intro mult_right_mono) simp_all
  finally have big: "2 ^ 53 \<le> n * 2 ^ nat (54 - k)" .
  define m where "m = n * 2 ^ nat (53 - k)"
  have s1: "scaled n 1 (0 - (q0 + 1)) = (m, 1)"
    using k53 by (simp add: scaled_def q0_def m_def)
  have "m < 2 ^ nat k * 2 ^ nat (53 - k)" unfolding m_def using k(3) by (intro mult_strict_right_mono) simp_all
  also have "\<dots> = 2 ^ (nat k + nat (53 - k))" by (simp add: power_add)
  also have "\<dots> = 2 ^ 53" using k(1) k53 by (simp add: nat_add_distrib [symmetric])
  finally have m53: "m < 2 ^ 53" .
  have mpos: "0 < m" using n(1) by (simp add: m_def)
  have abs: "\<bar>n\<bar> = n" "(n < 0) = False" using n(1) by simp_all
  have q1: "q0 + 1 = (if n * 2 ^ nat (54 - k) div 1 \<ge> 2 ^ 53 then q0 + 1 else q0)" using big by simp
  have "round_float64 False n 1 0 =
      (if m = 2 ^ 53 then (if q0 + 1 + 1 > 971 then Infinity False else Finite False (2 ^ 52) (q0 + 1 + 1))
       else (if q0 + 1 > 971 then Infinity False else Finite False m (q0 + 1)))"
    using n(1) by (intro round_float64_steps [OF _ q0 [symmetric] s0 q1 s1]) (simp_all add: round_half_even_1)
  then have res: "float64_of_int n = Finite False m (q0 + 1)"
    unfolding float64_of_int_def abs using m53 k53 by (simp add: q0_def)
  have "(of_int m :: rat) * 2 powi (q0 + 1) = of_int n"
  proof -
    have "(of_int (2 ^ nat (53 - k)) :: rat) = 2 powi (53 - k)" using k53 by (intro of_int_pow2) simp
    then have "(of_int m :: rat) = of_int n * 2 powi (53 - k)" by (simp only: m_def of_int_mult)
    moreover have "(2 powi (53 - k) * 2 powi (q0 + 1) :: rat) = 1"
      by (subst power_int_add [symmetric]) (simp_all add: q0_def)
    ultimately show ?thesis by (simp add: mult.assoc)
  qed
  then show ?thesis using mpos m53 k(1) k53 by (simp add: res q0_def)
qed

lemma total_loop_snoc: "total_loop acc (xs @ [x]) = fadd (total_loop acc xs) x"
  by (induction xs arbitrary: acc) simp_all

lemma sum_step:
  fixes u P A E ax e1 :: rat
  assumes "0 \<le> u" "1 \<le> P" "0 \<le> A" "0 \<le> ax" "E \<le> (P - 1) * A" "e1 \<le> u * (A + ax + E)"
  shows "e1 + E \<le> ((1 + u) * P - 1) * (A + ax)"
proof -
  have "u * E \<le> u * ((P - 1) * A)" using assms(1,5) by (rule mult_left_mono [rotated])
  then have "e1 + E \<le> u * (A + ax) + (1 + u) * ((P - 1) * A)"
    using assms(5,6) by (simp add: algebra_simps)
  also have "\<dots> = ((1 + u) * P - 1) * (A + ax) - ax * ((1 + u) * (P - 1))"
    by (simp add: algebra_simps)
  also have "\<dots> \<le> ((1 + u) * P - 1) * (A + ax)"
    using assms(1,2,4) by simp
  finally show ?thesis .
qed

lemma total_loop_error:
  assumes "\<forall>x\<in>set xs. is_float64 x" "total_loop (Finite False 0 (- 1074)) xs = Finite s m q"
  shows "is_float64 (total_loop (Finite False 0 (- 1074)) xs) \<and>
    \<bar>exact_value (total_loop (Finite False 0 (- 1074)) xs) - sum_list (map exact_value xs)\<bar>
      \<le> ((1 + 1 / 2 ^ 53) ^ length xs - 1) * sum_list (map (\<lambda>x. \<bar>exact_value x\<bar>) xs)"
  using assms
proof (induction xs arbitrary: s m q rule: rev_induct)
  case Nil
  then show ?case by simp
next
  case (snoc x xs)
  let ?z = "Finite False 0 (- 1074)"
  let ?u = "1 / 2 ^ 53 :: rat"
  let ?P = "(1 + ?u) ^ length xs"
  let ?A = "sum_list (map (\<lambda>x. \<bar>exact_value x\<bar>) xs)"
  let ?S = "sum_list (map exact_value xs)"
  have r: "fadd (total_loop ?z xs) x = Finite s m q" using snoc.prems(2) by (simp add: total_loop_snoc)
  then obtain s' m' q' where f: "total_loop ?z xs = Finite s' m' q'" by (rule fadd_Finite)
  from snoc.prems(1) have okx: "is_float64 x" and oks: "\<forall>x\<in>set xs. is_float64 x" by simp_all
  from snoc.IH [OF oks f] have ok: "is_float64 (total_loop ?z xs)"
    and E: "\<bar>exact_value (total_loop ?z xs) - ?S\<bar> \<le> (?P - 1) * ?A" by simp_all
  from fadd_error [OF ok okx r] have ok': "is_float64 (fadd (total_loop ?z xs) x)"
    and e1: "\<bar>exact_value (fadd (total_loop ?z xs) x) - (exact_value (total_loop ?z xs) + exact_value x)\<bar>
       \<le> \<bar>exact_value (total_loop ?z xs) + exact_value x\<bar> / 2 ^ 53" by simp_all
  have SA: "\<bar>?S\<bar> \<le> ?A" using sum_list_abs [of "map exact_value xs"] by (simp add: comp_def)
  have A0: "0 \<le> ?A" by (rule sum_list_nonneg) auto
  have P1: "1 \<le> ?P" by (rule one_le_power) simp
  have "\<bar>exact_value (total_loop ?z xs) + exact_value x\<bar>
      \<le> ?A + \<bar>exact_value x\<bar> + \<bar>exact_value (total_loop ?z xs) - ?S\<bar>"
    using SA by linarith
  then have "\<bar>exact_value (total_loop ?z xs) + exact_value x\<bar> / 2 ^ 53
      \<le> ?u * (?A + \<bar>exact_value x\<bar> + \<bar>exact_value (total_loop ?z xs) - ?S\<bar>)"
    by simp
  with e1 have e1': "\<bar>exact_value (fadd (total_loop ?z xs) x) - (exact_value (total_loop ?z xs) + exact_value x)\<bar>
      \<le> ?u * (?A + \<bar>exact_value x\<bar> + \<bar>exact_value (total_loop ?z xs) - ?S\<bar>)"
    by (rule order_trans)
  have "\<bar>exact_value (fadd (total_loop ?z xs) x) - (?S + exact_value x)\<bar>
      \<le> \<bar>exact_value (fadd (total_loop ?z xs) x) - (exact_value (total_loop ?z xs) + exact_value x)\<bar>
        + \<bar>exact_value (total_loop ?z xs) - ?S\<bar>"
    by linarith
  also have "\<dots> \<le> ((1 + ?u) * ?P - 1) * (?A + \<bar>exact_value x\<bar>)"
    by (rule sum_step [OF _ P1 A0 _ E e1']) simp_all
  finally show ?case using ok' by (simp add: total_loop_snoc add.commute)
qed

lemma float64_of_int_0: "float64_of_int 0 = Finite False 0 (- 1074)"
  by (simp add: float64_of_int_def round_float64_def)

lemma average_Nil: "average [] = NaN"
  by (simp add: average_def float64_of_int_0)

lemma div_step:
  fixes u P A E N e1 eta :: rat
  assumes "0 \<le> u" "0 \<le> A" "0 < N" "E \<le> (P - 1) * A" "e1 \<le> (A + E) / N * u + eta"
  shows "e1 + E / N \<le> ((1 + u) * P - 1) * (A / N) + eta"
proof -
  have "u * E \<le> u * ((P - 1) * A)" using assms(1,4) by (rule mult_left_mono [rotated])
  then have "u * (A + E) + E \<le> ((1 + u) * P - 1) * A" using assms(4) by (simp add: algebra_simps)
  then have "(u * (A + E) + E) / N \<le> ((1 + u) * P - 1) * A / N"
    using assms(3) by (simp add: divide_right_mono)
  then have a: "(u * (A + E) + E) / N \<le> ((1 + u) * P - 1) * (A / N)" by simp
  define X where "X = (A + E) / N * u"
  have "(u * (A + E) + E) / N = u * (A + E) / N + E / N" by (rule add_divide_distrib)
  also have "u * (A + E) / N = X" by (simp add: X_def)
  finally have "(u * (A + E) + E) / N = X + E / N" .
  with a have "X + E / N \<le> ((1 + u) * P - 1) * (A / N)" by (simp only:)
  moreover have "e1 \<le> X + eta" using assms(5) by (simp only: X_def)
  ultimately show ?thesis by linarith
qed

lemma average_error:
  assumes ok: "\<forall>x\<in>set xs. is_float64 x" and len: "length xs \<le> 2 ^ 53"
    and fin: "average xs = Finite s m q"
  shows "xs \<noteq> [] \<and> is_float64 (average xs) \<and>
    \<bar>exact_value (average xs) - arithmetic_mean (map exact_value xs)\<bar>
      \<le> ((1 + 1 / 2 ^ 53) ^ (length xs + 1) - 1) * arithmetic_mean (map (\<lambda>x. \<bar>exact_value x\<bar>) xs)
        + 2 powi (- 1075)"
proof -
  let ?z = "Finite False 0 (- 1074)"
  let ?u = "1 / 2 ^ 53 :: rat"
  let ?P = "(1 + ?u) ^ length xs"
  let ?A = "sum_list (map (\<lambda>x. \<bar>exact_value x\<bar>) xs)"
  let ?S = "sum_list (map exact_value xs)"
  let ?N = "of_nat (length xs) :: rat"
  have ne: "xs \<noteq> []" using fin by (auto simp: average_Nil)
  then have n0: "0 < int (length xs)" by simp
  have n1: "int (length xs) \<le> 2 ^ 53" using len by (metis of_nat_le_iff of_nat_numeral of_nat_power)
  from float64_of_int_exact [OF n0 n1] obtain mn qn where
    nf: "float64_of_int (int (length xs)) = Finite False mn qn" and mn: "0 < mn"
    and vn: "exact_value (Finite False mn qn) = of_int (int (length xs))" by blast
  have r: "fdiv (total_loop ?z xs) (Finite False mn qn) = Finite s m q"
    using fin by (simp add: average_def nf)
  then obtain s' m' q' where f: "total_loop ?z xs = Finite s' m' q'" by (rule fdiv_Finite)
  from total_loop_error [OF ok f] have okt: "is_float64 (total_loop ?z xs)"
    and E: "\<bar>exact_value (total_loop ?z xs) - ?S\<bar> \<le> (?P - 1) * ?A" by simp_all
  have av: "fdiv (total_loop ?z xs) (Finite False mn qn) = average xs" by (simp add: average_def nf)
  have vn': "exact_value (Finite False mn qn) = ?N" by (simp only: vn of_int_of_nat_eq)
  from fdiv_error [OF okt refl mn r] have oka: "is_float64 (average xs)"
    and e1: "\<bar>exact_value (average xs) - exact_value (total_loop ?z xs) / ?N\<bar>
      \<le> \<bar>exact_value (total_loop ?z xs) / ?N\<bar> / 2 ^ 53 + 2 powi (- 1075)"
    unfolding av vn' by (rule conjunct1, rule conjunct2)
  have N: "0 < ?N" using ne by simp
  have SA: "\<bar>?S\<bar> \<le> ?A" using sum_list_abs [of "map exact_value xs"] by (simp add: comp_def)
  have A0: "0 \<le> ?A" by (rule sum_list_nonneg) auto
  have "\<bar>exact_value (total_loop ?z xs)\<bar> \<le> ?A + \<bar>exact_value (total_loop ?z xs) - ?S\<bar>"
    using SA by linarith
  then have "\<bar>exact_value (total_loop ?z xs) / ?N\<bar> \<le> (?A + \<bar>exact_value (total_loop ?z xs) - ?S\<bar>) / ?N"
    using N by (simp add: divide_right_mono)
  then have "\<bar>exact_value (total_loop ?z xs) / ?N\<bar> / 2 ^ 53 + 2 powi (- 1075)
      \<le> (?A + \<bar>exact_value (total_loop ?z xs) - ?S\<bar>) / ?N * ?u + 2 powi (- 1075)"
    by simp
  with e1 have e1': "\<bar>exact_value (average xs) - exact_value (total_loop ?z xs) / ?N\<bar>
      \<le> (?A + \<bar>exact_value (total_loop ?z xs) - ?S\<bar>) / ?N * ?u + 2 powi (- 1075)"
    by (rule order_trans)
  have "\<bar>exact_value (total_loop ?z xs) / ?N - ?S / ?N\<bar> = \<bar>exact_value (total_loop ?z xs) - ?S\<bar> / ?N"
    using N by (simp add: diff_divide_distrib [symmetric])
  then have "\<bar>exact_value (average xs) - ?S / ?N\<bar>
      \<le> \<bar>exact_value (average xs) - exact_value (total_loop ?z xs) / ?N\<bar>
        + \<bar>exact_value (total_loop ?z xs) - ?S\<bar> / ?N"
    by linarith
  also have "\<dots> \<le> ((1 + ?u) * ?P - 1) * (?A / ?N) + 2 powi (- 1075)"
    by (rule div_step [OF _ A0 N E e1']) simp
  finally have "\<bar>exact_value (average xs) - ?S / ?N\<bar> \<le> ((1 + ?u) * ?P - 1) * (?A / ?N) + 2 powi (- 1075)" .
  then show ?thesis using ne oka by (simp add: arithmetic_mean_def)
qed

lemma round_half_even_nearest:
  assumes "0 < d"
  shows "round_half_even n d = nearest_int (of_int n / of_int d)"
proof -
  define q where "q = n div d"
  define r where "r = n mod d"
  have n: "n = d * q + r" by (simp add: q_def r_def)
  have fl: "\<lfloor>(of_int n / of_int d :: rat)\<rfloor> = q" by (simp add: q_def floor_divide_of_int_eq)
  have fr: "(of_int n / of_int d :: rat) - of_int q = of_int r / of_int d"
    using assms by (simp add: n field_simps)
  have dpos: "(0 :: rat) < of_int d" using assms by simp
  have gt: "(of_int r / of_int d :: rat) > 1 / 2 \<longleftrightarrow> 2 * r > d"
  proof -
    have "(of_int r / of_int d :: rat) > 1 / 2 \<longleftrightarrow> (of_int d :: rat) < of_int (2 * r)"
      using dpos by (simp add: field_simps)
    then show ?thesis by (simp only: of_int_less_iff)
  qed
  have eq: "(of_int r / of_int d :: rat) = 1 / 2 \<longleftrightarrow> 2 * r = d"
  proof -
    have "(of_int r / of_int d :: rat) = 1 / 2 \<longleftrightarrow> (of_int (2 * r) :: rat) = of_int d"
      using dpos by (auto simp: field_simps)
    then show ?thesis by (simp only: of_int_eq_iff)
  qed
  have odd: "odd q \<longleftrightarrow> q mod 2 = 1" by presburger
  show ?thesis
    unfolding round_half_even_def nearest_int_def Let_def fl fr gt eq odd q_def [symmetric] r_def [symmetric]
    by simp
qed

lemma format_f2_two_decimals:
  assumes "0 \<le> m"
  shows "format_f2 (Finite s m e) =
     (if s \<and> m = 0 then ''-'' else '''') @ two_decimals (exact_value (Finite s m e))"
proof -
  obtain n d where sc: "scaled (m * 100) 1 e = (n, d)" by (cases "scaled (m * 100) 1 e")
  from scaled_value [OF sc] have d: "0 < d" and v: "(of_int n / of_int d :: rat) = of_int (m * 100) * 2 powi e"
    by simp_all
  have p: "(0 :: rat) < 2 powi e" by (simp add: zero_less_power_int)
  have av: "\<bar>exact_value (Finite s m e)\<bar> * 100 = of_int n / of_int d"
    using assms p by (simp add: v abs_mult)
  have neg: "exact_value (Finite s m e) < 0 \<longleftrightarrow> s \<and> m \<noteq> 0"
    using assms p by (auto simp: mult_less_0_iff zero_less_mult_iff not_less less_imp_le)
  have f: "format_f2 (Finite s m e) =
      (if s then ''-'' else '''') @ digits (nat (round_half_even n d div 100)) @ ''.'' @
        appendInt (nat (round_half_even n d mod 100)) 2"
    by (simp add: format_f2_def sc Let_def)
  show ?thesis
    unfolding f two_decimals_def Let_def av neg round_half_even_nearest [OF d] by auto
qed

section \<open>The samples that \<^verbatim>\<open>Add\<close> records are \<^verbatim>\<open>float64\<close> numbers\<close>

lemma mantissa_loop_nonneg:
  "mantissa_loop base st s = (st', rest) \<Longrightarrow> 0 \<le> base \<Longrightarrow> 0 \<le> mant st \<Longrightarrow> 0 \<le> mant st'"
proof (induction s arbitrary: st)
  case Nil
  then show ?case by simp
next
  case (Cons c cs)
  have hexd: "0 \<le> int (lower c) - 97 + 10" if "is_hex_letter c"
    using that by (auto simp: is_hex_letter_def)
  show ?case
    using Cons.prems Cons.IH hexd
    by (auto split: if_splits simp: mult_nonneg_nonneg)
qed

lemma readFloat_nonneg:
  assumes "readFloat s = Some (neg, hex, m, x, rest)"
  shows "0 \<le> m"
proof -
  define s1 where "s1 = (if hd s = CHR ''+'' \<or> hd s = CHR ''-'' then tl s else s)"
  define hx where "hx = (length s1 > 2 \<and> s1 ! 0 = CHR ''0'' \<and> lower (s1 ! 1) = 120)"
  define base :: int where "base = (if hx then 16 else 10)"
  define s2 where "s2 = (if hx then drop 2 s1 else s1)"
  define st0 where "st0 = \<lparr>sawdot = False, sawdigits = False, nd = 0, dp = 0, mant = 0, underscores = False\<rparr>"
  obtain st s3 where ml: "mantissa_loop base st0 s2 = (st, s3)" by (cases "mantissa_loop base st0 s2")
  have "0 \<le> base" by (simp add: base_def)
  from mantissa_loop_nonneg [OF ml this] have "0 \<le> mant st" by (simp add: st0_def)
  moreover have "m = mant st"
    using assms ml
    unfolding readFloat_def Let_def s1_def [symmetric] hx_def [symmetric] base_def [symmetric]
      s2_def [symmetric] st0_def [symmetric]
    by (auto split: if_splits option.splits prod.splits)
  ultimately show ?thesis by simp
qed

lemma atof64_is_float64: "0 \<le> m \<Longrightarrow> is_float64 (atof64 neg hex m x)"
  by (simp add: atof64_def round_float64_is_float64)

lemma ParseFloat_is_float64:
  assumes "ParseFloat s = Some f"
  shows "is_float64 f"
proof (cases "special s")
  case (Some p)
  obtain g n where p: "p = (g, n)" by (cases p)
  from assms Some p have "f = g" by (simp add: ParseFloat_def split: if_splits)
  moreover have "is_float64 g"
    using Some p by (auto simp: special_def special_inf_def Let_def split: list.splits if_splits)
  ultimately show ?thesis by simp
next
  case None
  with assms obtain neg hex m x rest where rf: "readFloat s = Some (neg, hex, m, x, rest)"
    and f: "f = atof64 neg hex m x"
    by (auto simp: ParseFloat_def split: option.splits if_splits float64.splits)
  from readFloat_nonneg [OF rf] show ?thesis unfolding f by (rule atof64_is_float64)
qed

lemma record_response_time_samples:
  assumes "\<forall>x\<in>set (ResponseTime r). is_float64 x"
  shows "\<forall>x\<in>set (ResponseTime (record_response_time e r)). is_float64 x"
  using assms ParseFloat_is_float64
  by (auto simp: record_response_time_def Let_def split: option.splits)

lemma Add_samples:
  assumes "Add ul r e = Inr r'" "\<forall>x\<in>set (ResponseTime r). is_float64 x"
  shows "\<forall>x\<in>set (ResponseTime r'). is_float64 x"
proof -
  let ?r1 = "count_level ul e (r\<lparr>TotalEntries := TotalEntries r + 1\<rparr>)"
  have "ResponseTime ?r1 = ResponseTime r" by (simp add: count_level_fields)
  with assms(2) have "\<forall>x\<in>set (ResponseTime (record_response_time e ?r1)). is_float64 x"
    by (intro record_response_time_samples) simp
  moreover have "ResponseTime r' = ResponseTime (record_response_time e ?r1)"
    using assms(1) by (auto simp: Add_def count_message_def split: option.splits)
  ultimately show ?thesis by simp
qed

lemma Add_all_samples:
  "Add_all ul r es = Inr r' \<Longrightarrow> \<forall>x\<in>set (ResponseTime r). is_float64 x \<Longrightarrow>
   \<forall>x\<in>set (ResponseTime r'). is_float64 x"
proof (induction es arbitrary: r)
  case Nil
  then show ?case by simp
next
  case (Cons e es)
  from Cons.prems(1) obtain r1 where a: "Add ul r e = Inr r1" and b: "Add_all ul r1 es = Inr r'"
    by (auto split: sum.splits)
  from Add_samples [OF a Cons.prems(2)] have "\<forall>x\<in>set (ResponseTime r1). is_float64 x" .
  with b show ?case by (rule Cons.IH)
qed

lemma Analyze_samples:
  assumes "Analyze ul entries flt = Inr r"
  shows "\<forall>x\<in>set (ResponseTime r). is_float64 x"
proof -
  from assms have "Add_all ul new_report entries = Inr r"
    by (simp add: Analyze_def Analyze_loop_Add_all)
  then show ?thesis by (rule Add_all_samples) (simp add: new_report_fields)
qed

section \<open>Evaluation of the floating-point examples\<close>

lemmas float_defs = round_float64_def bit_length.simps scaled_def round_half_even_def Let_def

lemma round_123_45: "round_float64 False 12345 100 0 = Finite False 8687021468732621 (- 46)"
  by (simp add: float_defs)

lemma readFloat_123_45: "readFloat ''123.45'' = Some (False, False, 12345, - 2, [])"
  by (simp add: readFloat_def read_exponent_def lower_def is_digit_def digit_val_def byte_def
      Let_def is_hex_letter_def)

lemma ParseFloat_123_45: "ParseFloat ''123.45'' = Some (Finite False 8687021468732621 (- 46))"
  by (simp add: ParseFloat_def special_def readFloat_123_45 atof64_def round_123_45)

lemma last_word_example:
  "last (Split (TrimSuffix ''request handled 123.45 ms'' '' ms'') (CHR '' '')) = ''123.45''"
  by (simp add: TrimSuffix_def HasSuffix_def Split_genSplit genSplit_numeral)

lemma HasSuffix_example: "HasSuffix ''request handled 123.45 ms'' '' ms''"
  by (simp add: HasSuffix_def)

lemma float64_of_int_100: "float64_of_int 100 = Finite False 7036874417766400 (- 46)"
  by (simp add: float64_of_int_def float_defs)

lemma float64_of_int_200: "float64_of_int 200 = Finite False 7036874417766400 (- 45)"
  by (simp add: float64_of_int_def float_defs)

lemma float64_of_int_2: "float64_of_int 2 = Finite False 4503599627370496 (- 51)"
  by (simp add: float64_of_int_def float_defs)

lemma total_100_200:
  "total_loop (Finite False 0 (- 1074))
     [Finite False 7036874417766400 (- 46), Finite False 7036874417766400 (- 45)] =
   Finite False 5277655813324800 (- 44)"
  by (simp add: float_defs)

lemma fdiv_300_2:
  "fdiv (Finite False 5277655813324800 (- 44)) (Finite False 4503599627370496 (- 51)) =
   Finite False 5277655813324800 (- 45)"
  by (simp add: float_defs)

lemma scaled_150: "scaled 527765581332480000 1 (- 45) = (527765581332480000, 35184372088832)"
  by (simp add: scaled_def)

lemma round_150: "round_half_even 527765581332480000 35184372088832 = 15000"
  by (simp add: round_half_even_def Let_def)

lemma digits_150: "digits 150 = ''150''"
  by (simp add: digits.simps digit_char_simps digit_char_Suc_0)

lemma appendInt_00: "appendInt 0 2 = ''00''"
  by (simp add: appendInt_def digits.simps digit_char_simps)

lemma format_150: "format_f2 (Finite False 5277655813324800 (- 45)) = ''150.00''"
  by (simp add: format_f2_def scaled_150 round_150 digits_150 appendInt_00 Let_def)

lemma average_100_200:
  "average [float64_of_int 100, float64_of_int 200] = Finite False 5277655813324800 (- 45)"
proof -
  have "total_loop (Finite False 0 (- 1074)) [float64_of_int 100, float64_of_int 200] =
      Finite False 5277655813324800 (- 44)"
    unfolding float64_of_int_100 float64_of_int_200 by (rule total_100_200)
  moreover have "float64_of_int (int (length [float64_of_int 100, float64_of_int 200])) =
      Finite False 4503599627370496 (- 51)"
    using float64_of_int_2 by simp
  ultimately show ?thesis unfolding average_def by (simp only: fdiv_300_2)
qed

lemma readFloat_0_01: "readFloat ''0.01'' = Some (False, False, 1, - 2, [])"
  by (simp add: readFloat_def read_exponent_def lower_def is_digit_def digit_val_def byte_def
      Let_def is_hex_letter_def)

lemma readFloat_0_02: "readFloat ''0.02'' = Some (False, False, 2, - 2, [])"
  by (simp add: readFloat_def read_exponent_def lower_def is_digit_def digit_val_def byte_def
      Let_def is_hex_letter_def)

lemma round_0_01: "round_float64 False 1 100 0 = Finite False 5764607523034235 (- 59)"
  by (simp add: float_defs)

lemma round_0_02: "round_float64 False 2 100 0 = Finite False 5764607523034235 (- 58)"
  by (simp add: float_defs)

lemma total_0_01_0_02:
  "total_loop (Finite False 0 (- 1074))
     [Finite False 5764607523034235 (- 59), Finite False 5764607523034235 (- 58)] =
   Finite False 8646911284551352 (- 58)"
  by (simp add: float_defs)

lemma fdiv_0_03_2:
  "fdiv (Finite False 8646911284551352 (- 58)) (Finite False 4503599627370496 (- 51)) =
   Finite False 8646911284551352 (- 59)"
  by (simp add: float_defs)

lemma average_0_01_0_02:
  "average [Finite False 5764607523034235 (- 59), Finite False 5764607523034235 (- 58)] =
   Finite False 8646911284551352 (- 59)"
proof -
  have "float64_of_int (int (length [Finite False 5764607523034235 (- 59), Finite False 5764607523034235 (- 58)]))
      = Finite False 4503599627370496 (- 51)"
    using float64_of_int_2 by simp
  then show ?thesis unfolding average_def total_0_01_0_02 by (simp only: fdiv_0_03_2)
qed

lemma digits_0: "digits 0 = ''0''"
  by (simp add: digits.simps digit_char_simps)

lemma appendInt_01: "appendInt (Suc 0) 2 = ''01''"
  by (simp add: appendInt_def digits.simps digit_char_simps digit_char_Suc_0)

lemma appendInt_02: "appendInt 2 2 = ''02''"
  by (simp add: appendInt_def digits.simps digit_char_simps)

lemma format_0_015: "format_f2 (Finite False 8646911284551352 (- 59)) = ''0.01''"
  by (simp add: format_f2_def scaled_def round_half_even_def Let_def digits_0 appendInt_01)

lemma mean_0_01_0_02:
  "arithmetic_mean (map exact_value [Finite False 5764607523034235 (- 59), Finite False 5764607523034235 (- 58)])
     = 17293822569102705 / 1152921504606846976"
  by (simp add: arithmetic_mean_def)

lemma two_decimals_mean: "two_decimals (17293822569102705 / 1152921504606846976) = ''0.02''"
proof -
  have f: "\<lfloor>(17293822569102705 / 1152921504606846976 * 100 :: rat)\<rfloor> = 1"
    by (simp add: floor_eq_iff)
  have "nearest_int (17293822569102705 / 1152921504606846976 * 100) = 2"
    unfolding nearest_int_def Let_def f by simp
  then show ?thesis by (simp add: two_decimals_def digits_0 appendInt_02)
qed

lemma ParseFloat_0_01: "ParseFloat ''0.01'' = Some (Finite False 5764607523034235 (- 59))"
  by (simp add: ParseFloat_def special_def readFloat_0_01 atof64_def round_0_01)

lemma ParseFloat_0_02: "ParseFloat ''0.02'' = Some (Finite False 5764607523034235 (- 58))"
  by (simp add: ParseFloat_def special_def readFloat_0_02 atof64_def round_0_02)

chapter \<open>The claims\<close>

section \<open>\<^verbatim>\<open>Analyze\<close>\<close>

text \<open>
  Claim C1. For every list of entries and every list of filters, \<^verbatim>\<open>Analyze\<close> adds every
  entry of the list to the report: its result is that of calling \<^verbatim>\<open>Add\<close> for each entry
  in turn on the fresh report, it does not panic, and \<^verbatim>\<open>TotalEntries\<close> of the report is
  the length of the list. In particular this holds for the filters that \<^verbatim>\<open>main\<close> builds
  from any set of levels and any start and end time.
\<close>

theorem Analyze_adds_every_entry:
  "Analyze ul entries flt = Add_all ul new_report entries
   \<and> (\<exists>r. Analyze ul entries flt = Inr r \<and> TotalEntries r = int (length entries))
   \<and> Analyze ul entries (main_filter ul levels startTime endTime) = Analyze ul entries []"
proof -
  have eq: "Analyze ul entries f = Add_all ul new_report entries" for f
    by (simp add: Analyze_def Analyze_loop_Add_all)
  from Add_all_counts [OF new_report_map, of ul entries]
  have "\<exists>r. Add_all ul new_report entries = Inr r \<and> TotalEntries r = int (length entries)"
    by (auto simp: new_report_fields)
  then show ?thesis by (simp add: eq)
qed

theorem Analyze_adds_every_entry_witness:
  "\<exists>r. Analyze id
          [\<lparr>time = Time_zero, level = ''INFO'', message = ''a''\<rparr>,
           \<lparr>time = Time_zero, level = ''DEBUG'', message = ''b''\<rparr>]
          [\<lambda>entry. True] = Inr r \<and> TotalEntries r = 2"
proof -
  let ?es = "[\<lparr>time = Time_zero, level = ''INFO'', message = ''a''\<rparr>,
              \<lparr>time = Time_zero, level = ''DEBUG'', message = ''b''\<rparr>]"
  have "\<exists>r. Analyze id ?es [\<lambda>entry. True] = Inr r \<and> TotalEntries r = int (length ?es)"
    using Analyze_adds_every_entry [of id ?es "[\<lambda>entry. True]"] by (rule conjunct1 [OF conjunct2])
  then show ?thesis by simp
qed

section \<open>\<^verbatim>\<open>ReadFile\<close>: lines that fail to parse\<close>

text \<open>
  Claim C2 says that a line that fails to parse contributes no entry to the slice that
  \<^verbatim>\<open>ReadFile\<close> returns. The comment above \<^verbatim>\<open>ReadFile\<close> says the same (``Log entry not
  following the format will be skipped''), but the loop has no \<^verbatim>\<open>continue\<close> after the
  \<^verbatim>\<open>log.Println\<close>: for the file whose only line is \<^verbatim>\<open>bad line\<close> the error is logged
  and the zero-value entry is appended all the same.
\<close>

theorem ReadFile_bad_line_appended:
  "ReadFile [''bad line''] = ([LogEntry_zero], [InvalidLogEntry])"
  by (simp add: ReadFile_def NewLogEntry_bad_line)

section \<open>\<^verbatim>\<open>NewLogEntry\<close>\<close>

text \<open>
  Claim C3. \<^verbatim>\<open>NewLogEntry\<close> cuts the line at its first three spaces into date, time,
  level and message. It returns the error ``invalid log entry'' and the zero entry exactly
  when fewer than four fields result, that is, when the line has fewer than three spaces.
  Otherwise it returns ``invalid log time'' and the zero entry exactly when
  \<^verbatim>\<open>time.Parse(time.DateTime, date + " " + time)\<close> fails, and else the entry with the
  parsed time stamp, the level field as written and the message the untouched rest of the
  line. The line \<^verbatim>\<open>2024-01-01 10:00:00 INFO started ok\<close> gives the time stamp
  2024-01-01T10:00:00, level \<^verbatim>\<open>INFO\<close> and message \<^verbatim>\<open>started ok\<close>.
\<close>

theorem NewLogEntry_contract:
  "(snd (NewLogEntry line) = Some InvalidLogEntry \<longleftrightarrow> length (SplitN line (CHR '' '') 4) < 4)
   \<and> (length (SplitN line (CHR '' '') 4) < 4 \<longleftrightarrow> count_list line (CHR '' '') < 3)
   \<and> (\<forall>d t l m. SplitN line (CHR '' '') 4 = [d, t, l, m] \<longleftrightarrow>
          line = d @ '' '' @ t @ '' '' @ l @ '' '' @ m \<and>
          CHR '' '' \<notin> set d \<and> CHR '' '' \<notin> set t \<and> CHR '' '' \<notin> set l)
   \<and> (\<forall>d t l m. SplitN line (CHR '' '') 4 = [d, t, l, m] \<longrightarrow>
          NewLogEntry line =
            (case Parse (d @ '' '' @ t) of
               None \<Rightarrow> (LogEntry_zero, Some InvalidLogTime)
             | Some ts \<Rightarrow> (\<lparr>time = ts, level = l, message = m\<rparr>, None)))
   \<and> (snd (NewLogEntry line) = Some InvalidLogTime \<longleftrightarrow>
          (\<exists>d t l m. SplitN line (CHR '' '') 4 = [d, t, l, m] \<and> Parse (d @ '' '' @ t) = None))
   \<and> (snd (NewLogEntry line) \<noteq> None \<longrightarrow> fst (NewLogEntry line) = LogEntry_zero)
   \<and> NewLogEntry ''2024-01-01 10:00:00 INFO started ok'' =
         (\<lparr>time = \<lparr>Year = 2024, Month = 1, Day = 1, Hour = 10, Minute = 0, Second = 0, Nanosecond = 0\<rparr>,
           level = ''INFO'', message = ''started ok''\<rparr>, None)"
proof (intro conjI allI impI)
  show "snd (NewLogEntry line) = Some InvalidLogEntry \<longleftrightarrow> length (SplitN line (CHR '' '') 4) < 4"
    using SplitN_4_cases [of line]
    by (auto simp: NewLogEntry_few_fields NewLogEntry_fields split: option.splits)
  show "length (SplitN line (CHR '' '') 4) < 4 \<longleftrightarrow> count_list line (CHR '' '') < 3"
    by (auto simp: length_SplitN_4)
  show "SplitN line (CHR '' '') 4 = [d, t, l, m] \<longleftrightarrow>
          line = d @ '' '' @ t @ '' '' @ l @ '' '' @ m \<and>
          CHR '' '' \<notin> set d \<and> CHR '' '' \<notin> set t \<and> CHR '' '' \<notin> set l" for d t l m
    by (simp add: SplitN_4_genSplit genSplit_3_iff)
  show "NewLogEntry line =
          (case Parse (d @ '' '' @ t) of
             None \<Rightarrow> (LogEntry_zero, Some InvalidLogTime)
           | Some ts \<Rightarrow> (\<lparr>time = ts, level = l, message = m\<rparr>, None))"
    if "SplitN line (CHR '' '') 4 = [d, t, l, m]" for d t l m
    using that by (rule NewLogEntry_fields)
  show "snd (NewLogEntry line) = Some InvalidLogTime \<longleftrightarrow>
          (\<exists>d t l m. SplitN line (CHR '' '') 4 = [d, t, l, m] \<and> Parse (d @ '' '' @ t) = None)"
    using SplitN_4_cases [of line]
    by (auto simp: NewLogEntry_few_fields NewLogEntry_fields split: option.splits)
  show "fst (NewLogEntry line) = LogEntry_zero" if "snd (NewLogEntry line) \<noteq> None"
    using that by (rule NewLogEntry_error_zero)
  show "NewLogEntry ''2024-01-01 10:00:00 INFO started ok'' =
         (\<lparr>time = \<lparr>Year = 2024, Month = 1, Day = 1, Hour = 10, Minute = 0, Second = 0, Nanosecond = 0\<rparr>,
           level = ''INFO'', message = ''started ok''\<rparr>, None)"
    by (rule NewLogEntry_example)
qed

theorem NewLogEntry_contract_witness:
  "SplitN ''2024-01-01 10:00:00 INFO started ok'' (CHR '' '') 4 =
     [''2024-01-01'', ''10:00:00'', ''INFO'', ''started ok'']
   \<and> NewLogEntry ''2024-01-01 10:00:00 INFO started ok'' =
       (case Parse (''2024-01-01'' @ '' '' @ ''10:00:00'') of
          None \<Rightarrow> (LogEntry_zero, Some InvalidLogTime)
        | Some ts \<Rightarrow> (\<lparr>time = ts, level = ''INFO'', message = ''started ok''\<rparr>, None))
   \<and> snd (NewLogEntry ''bad line'') \<noteq> None
   \<and> fst (NewLogEntry ''bad line'') = LogEntry_zero"
  using NewLogEntry_contract [of "''2024-01-01 10:00:00 INFO started ok''"]
    NewLogEntry_contract [of "''bad line''"]
  by (simp add: SplitN_example NewLogEntry_bad_line)

section \<open>\<^verbatim>\<open>Add\<close>: response times\<close>

text \<open>
  Claim C4. On a report whose map is allocated, \<^verbatim>\<open>Add\<close> appends a response-time sample
  if and only if the message ends in \<^verbatim>\<open> ms\<close> and the last space-delimited word of the
  message without that suffix is accepted by \<^verbatim>\<open>strconv.ParseFloat\<close>; the sample is the
  number parsed, and otherwise the samples are left as they are. The message
  \<^verbatim>\<open>request handled 123.45 ms\<close> records the \<^verbatim>\<open>float64\<close> nearest to 123.45.
\<close>

theorem Add_response_time:
  "(MsgFrequency r = Some m \<longrightarrow>
      (\<exists>r'. Add ul r e = Inr r' \<and>
         ResponseTime r' =
           (if HasSuffix (message e) '' ms'' then
              (case ParseFloat (last (Split (TrimSuffix (message e) '' ms'') (CHR '' ''))) of
                 Some n \<Rightarrow> ResponseTime r @ [n]
               | None \<Rightarrow> ResponseTime r)
            else ResponseTime r)))
   \<and> (MsgFrequency r = Some m \<longrightarrow>
      (\<exists>r'. Add ul r \<lparr>time = t, level = l, message = ''request handled 123.45 ms''\<rparr> = Inr r' \<and>
         ResponseTime r' = ResponseTime r @ [Finite False 8687021468732621 (- 46)]))
   \<and> round_float64 False 12345 100 0 = Finite False 8687021468732621 (- 46)"
proof (intro conjI impI)
  assume m: "MsgFrequency r = Some m"
  from Add_Some [OF m, of ul e] obtain r' where
    "Add ul r e = Inr r'" "ResponseTime r' = ResponseTime (record_response_time e r)"
    by blast
  then show "\<exists>r'. Add ul r e = Inr r' \<and>
         ResponseTime r' =
           (if HasSuffix (message e) '' ms'' then
              (case ParseFloat (last (Split (TrimSuffix (message e) '' ms'') (CHR '' ''))) of
                 Some n \<Rightarrow> ResponseTime r @ [n]
               | None \<Rightarrow> ResponseTime r)
            else ResponseTime r)"
    by (simp add: record_response_time_eq)
next
  assume m: "MsgFrequency r = Some m"
  let ?e = "\<lparr>time = t, level = l, message = ''request handled 123.45 ms''\<rparr>"
  from Add_Some [OF m, of ul ?e] obtain r' where
    "Add ul r ?e = Inr r'" "ResponseTime r' = ResponseTime (record_response_time ?e r)"
    by blast
  moreover have "ResponseTime (record_response_time ?e r) =
      ResponseTime r @ [Finite False 8687021468732621 (- 46)]"
    unfolding record_response_time_eq LogEntry.select_convs
    by (simp only: HasSuffix_example last_word_example ParseFloat_123_45 if_True option.case)
  ultimately show "\<exists>r'. Add ul r ?e = Inr r' \<and>
         ResponseTime r' = ResponseTime r @ [Finite False 8687021468732621 (- 46)]"
    by simp
next
  show "round_float64 False 12345 100 0 = Finite False 8687021468732621 (- 46)"
    by (rule round_123_45)
qed

theorem Add_response_time_witness:
  "MsgFrequency new_report = Some Map.empty
   \<and> (\<exists>r'. Add id new_report
              \<lparr>time = Time_zero, level = ''INFO'', message = ''request handled 123.45 ms''\<rparr> = Inr r' \<and>
            ResponseTime r' = [Finite False 8687021468732621 (- 46)])"
proof -
  have "\<exists>r'. Add id new_report
              \<lparr>time = Time_zero, level = ''INFO'', message = ''request handled 123.45 ms''\<rparr> = Inr r' \<and>
            ResponseTime r' = ResponseTime new_report @ [Finite False 8687021468732621 (- 46)]"
    using Add_response_time [of new_report Map.empty id _ Time_zero "''INFO''"] new_report_map
    by blast
  then show ?thesis by (simp add: new_report_map new_report_fields)
qed

section \<open>\<^verbatim>\<open>Add\<close>: the counters\<close>

text \<open>
  Claim C5. On a report whose map is allocated, \<^verbatim>\<open>Add\<close> increments the total, and
  increments exactly the per-level counter named by the lowered level of the entry when
  that is \<^verbatim>\<open>info\<close>, \<^verbatim>\<open>warn\<close>, \<^verbatim>\<open>error\<close> or \<^verbatim>\<open>debug\<close>, and no per-level counter
  otherwise. Four entries with the levels \<^verbatim>\<open>INFO\<close>, \<^verbatim>\<open>info\<close>, \<^verbatim>\<open>WARN\<close>, \<^verbatim>\<open>error\<close> give
  Info = 2, Warn = 1, Error = 1, Debug = 0 and TotalEntries = 4.
\<close>

theorem Add_level_counter:
  "(MsgFrequency r = Some m \<longrightarrow>
      (\<exists>r'. Add ul r e = Inr r' \<and>
         TotalEntries r' = TotalEntries r + 1 \<and>
         Info r' = Info r + (if ToLower ul (level e) = ''info'' then 1 else 0) \<and>
         Warn r' = Warn r + (if ToLower ul (level e) = ''warn'' then 1 else 0) \<and>
         Error r' = Error r + (if ToLower ul (level e) = ''error'' then 1 else 0) \<and>
         Debug r' = Debug r + (if ToLower ul (level e) = ''debug'' then 1 else 0)))
   \<and> (\<exists>r4. Analyze ul
             [\<lparr>time = t1, level = ''INFO'', message = m1\<rparr>,
              \<lparr>time = t2, level = ''info'', message = m2\<rparr>,
              \<lparr>time = t3, level = ''WARN'', message = m3\<rparr>,
              \<lparr>time = t4, level = ''error'', message = m4\<rparr>] flt = Inr r4 \<and>
            Info r4 = 2 \<and> Warn r4 = 1 \<and> Error r4 = 1 \<and> Debug r4 = 0 \<and> TotalEntries r4 = 4)"
proof
  show "MsgFrequency r = Some m \<longrightarrow>
      (\<exists>r'. Add ul r e = Inr r' \<and>
         TotalEntries r' = TotalEntries r + 1 \<and>
         Info r' = Info r + (if ToLower ul (level e) = ''info'' then 1 else 0) \<and>
         Warn r' = Warn r + (if ToLower ul (level e) = ''warn'' then 1 else 0) \<and>
         Error r' = Error r + (if ToLower ul (level e) = ''error'' then 1 else 0) \<and>
         Debug r' = Debug r + (if ToLower ul (level e) = ''debug'' then 1 else 0))"
  proof
    assume "MsgFrequency r = Some m"
    from Add_Some [OF this, of ul e] show "\<exists>r'. Add ul r e = Inr r' \<and>
         TotalEntries r' = TotalEntries r + 1 \<and>
         Info r' = Info r + (if ToLower ul (level e) = ''info'' then 1 else 0) \<and>
         Warn r' = Warn r + (if ToLower ul (level e) = ''warn'' then 1 else 0) \<and>
         Error r' = Error r + (if ToLower ul (level e) = ''error'' then 1 else 0) \<and>
         Debug r' = Debug r + (if ToLower ul (level e) = ''debug'' then 1 else 0)"
      by blast
  qed
  let ?es = "[\<lparr>time = t1, level = ''INFO'', message = m1\<rparr>,
              \<lparr>time = t2, level = ''info'', message = m2\<rparr>,
              \<lparr>time = t3, level = ''WARN'', message = m3\<rparr>,
              \<lparr>time = t4, level = ''error'', message = m4\<rparr>]"
  from Add_all_counts [OF new_report_map, of ul ?es]
  show "\<exists>r4. Analyze ul ?es flt = Inr r4 \<and>
            Info r4 = 2 \<and> Warn r4 = 1 \<and> Error r4 = 1 \<and> Debug r4 = 0 \<and> TotalEntries r4 = 4"
    by (auto simp: Analyze_def Analyze_loop_Add_all new_report_fields ToLower_examples)
qed

theorem Add_level_counter_witness:
  "MsgFrequency new_report = Some Map.empty
   \<and> (\<exists>r'. Add id new_report \<lparr>time = Time_zero, level = ''WARN'', message = ''disk''\<rparr> = Inr r' \<and>
         TotalEntries r' = 1 \<and> Info r' = 0 \<and> Warn r' = 1 \<and> Error r' = 0 \<and> Debug r' = 0)"
  using Add_level_counter
    [of new_report Map.empty id "\<lparr>time = Time_zero, level = ''WARN'', message = ''disk''\<rparr>"]
  by (simp add: new_report_map new_report_fields ToLower_examples)

text \<open>
  Claim C6. From the fresh report, after any sequence of \<^verbatim>\<open>Add\<close> calls \<^verbatim>\<open>TotalEntries\<close>
  is the number of calls and the four per-level counters sum to at most
  \<^verbatim>\<open>TotalEntries\<close>. Each \<^verbatim>\<open>Add\<close> (on a report whose map is allocated) keeps this: it adds
  exactly 1 to \<^verbatim>\<open>TotalEntries\<close>, lowers no per-level counter, and adds 1 to at most
  one of them.
\<close>

theorem Add_invariant:
  "(\<exists>r. Add_all ul new_report es = Inr r \<and>
        TotalEntries r = int (length es) \<and>
        0 \<le> Info r \<and> 0 \<le> Warn r \<and> 0 \<le> Error r \<and> 0 \<le> Debug r \<and>
        Info r + Warn r + Error r + Debug r \<le> TotalEntries r)
   \<and> (MsgFrequency r0 = Some m \<longrightarrow>
        (\<exists>r'. Add ul r0 e = Inr r' \<and>
           TotalEntries r' = TotalEntries r0 + 1 \<and>
           Info r0 \<le> Info r' \<and> Warn r0 \<le> Warn r' \<and> Error r0 \<le> Error r' \<and> Debug r0 \<le> Debug r' \<and>
           (Info r' + Warn r' + Error r' + Debug r') - (Info r0 + Warn r0 + Error r0 + Debug r0) \<le> 1 \<and>
           (Info r0 + Warn r0 + Error r0 + Debug r0 \<le> TotalEntries r0 \<longrightarrow>
              Info r' + Warn r' + Error r' + Debug r' \<le> TotalEntries r')))"
proof
  from Add_all_counts [OF new_report_map, of ul es] level_counts_le [of ul es]
  show "\<exists>r. Add_all ul new_report es = Inr r \<and>
        TotalEntries r = int (length es) \<and>
        0 \<le> Info r \<and> 0 \<le> Warn r \<and> 0 \<le> Error r \<and> 0 \<le> Debug r \<and>
        Info r + Warn r + Error r + Debug r \<le> TotalEntries r"
    by (auto simp: new_report_fields)
  show "MsgFrequency r0 = Some m \<longrightarrow>
        (\<exists>r'. Add ul r0 e = Inr r' \<and>
           TotalEntries r' = TotalEntries r0 + 1 \<and>
           Info r0 \<le> Info r' \<and> Warn r0 \<le> Warn r' \<and> Error r0 \<le> Error r' \<and> Debug r0 \<le> Debug r' \<and>
           (Info r' + Warn r' + Error r' + Debug r') - (Info r0 + Warn r0 + Error r0 + Debug r0) \<le> 1 \<and>
           (Info r0 + Warn r0 + Error r0 + Debug r0 \<le> TotalEntries r0 \<longrightarrow>
              Info r' + Warn r' + Error r' + Debug r' \<le> TotalEntries r'))"
  proof
    assume "MsgFrequency r0 = Some m"
    from Add_Some [OF this, of ul e] obtain r' where
      "Add ul r0 e = Inr r'" "TotalEntries r' = TotalEntries r0 + 1"
      "Info r' = Info r0 + (if ToLower ul (level e) = ''info'' then 1 else 0)"
      "Warn r' = Warn r0 + (if ToLower ul (level e) = ''warn'' then 1 else 0)"
      "Error r' = Error r0 + (if ToLower ul (level e) = ''error'' then 1 else 0)"
      "Debug r' = Debug r0 + (if ToLower ul (level e) = ''debug'' then 1 else 0)"
      by blast
    then show "\<exists>r'. Add ul r0 e = Inr r' \<and>
           TotalEntries r' = TotalEntries r0 + 1 \<and>
           Info r0 \<le> Info r' \<and> Warn r0 \<le> Warn r' \<and> Error r0 \<le> Error r' \<and> Debug r0 \<le> Debug r' \<and>
           (Info r' + Warn r' + Error r' + Debug r') - (Info r0 + Warn r0 + Error r0 + Debug r0) \<le> 1 \<and>
           (Info r0 + Warn r0 + Error r0 + Debug r0 \<le> TotalEntries r0 \<longrightarrow>
              Info r' + Warn r' + Error r' + Debug r' \<le> TotalEntries r')"
      by auto
  qed
qed

theorem Add_invariant_witness:
  "MsgFrequency new_report = Some Map.empty
   \<and> Info new_report + Warn new_report + Error new_report + Debug new_report \<le> TotalEntries new_report
   \<and> (\<exists>r'. Add id new_report \<lparr>time = Time_zero, level = ''trace'', message = ''x''\<rparr> = Inr r' \<and>
         TotalEntries r' = 1 \<and> Info r' + Warn r' + Error r' + Debug r' \<le> TotalEntries r')"
  using Add_invariant
    [of id "[]" new_report Map.empty "\<lparr>time = Time_zero, level = ''trace'', message = ''x''\<rparr>"]
  by (auto simp: new_report_map new_report_fields)

section \<open>\<^verbatim>\<open>Print\<close>: the average response time\<close>

text \<open>
  Claim C7, as the specification words it: the number on the line of the average is the
  arithmetic mean of the samples (their sum divided by their count) to two decimal
  places. It is not. The messages \<^verbatim>\<open>0.01 ms\<close> and \<^verbatim>\<open>0.02 ms\<close> give the two samples
  below; \<^verbatim>\<open>Print\<close> writes \<^verbatim>\<open>Average Response Time: 0.01 ms\<close>, and the arithmetic mean
  of the two samples, a little above 0.015, is 0.02 to two decimal places. The sum of
  the two samples is rounded to a \<^verbatim>\<open>float64\<close> that lies below 0.03.
\<close>

theorem Print_average_counterexample:
  "ParseFloat ''0.01'' = Some (Finite False 5764607523034235 (- 59))
   \<and> ParseFloat ''0.02'' = Some (Finite False 5764607523034235 (- 58))
   \<and> fst (Print [] []
        (new_report\<lparr>ResponseTime :=
           [Finite False 5764607523034235 (- 59), Finite False 5764607523034235 (- 58)]\<rparr>)) =
     [''Total Log Entries: 0'' @ [CHR 0x0A], ''INFO: 0'' @ [CHR 0x0A], ''DEBUG: 0'' @ [CHR 0x0A],
      ''WARN: 0'' @ [CHR 0x0A], ''ERROR: 0'' @ [CHR 0x0A],
      ''Average Response Time: 0.01 ms'' @ [CHR 0x0A],
      ''Most frequent mesage: '' @ [CHR 0x27, CHR 0x27, CHR 0x0A]]
   \<and> two_decimals (arithmetic_mean (map exact_value
        [Finite False 5764607523034235 (- 59), Finite False 5764607523034235 (- 58)])) = ''0.02''"
proof (intro conjI)
  show "ParseFloat ''0.01'' = Some (Finite False 5764607523034235 (- 59))"
    by (rule ParseFloat_0_01)
  show "ParseFloat ''0.02'' = Some (Finite False 5764607523034235 (- 58))"
    by (rule ParseFloat_0_02)
  have d0: "format_d 0 = ''0''" by (simp add: format_d_def digits.simps digit_char_simps)
  have mf: "most_frequent [] [] r = Inr []" for r by (simp add: most_frequent_def)
  show "fst (Print [] []
        (new_report\<lparr>ResponseTime :=
           [Finite False 5764607523034235 (- 59), Finite False 5764607523034235 (- 58)]\<rparr>)) =
     [''Total Log Entries: 0'' @ [CHR 0x0A], ''INFO: 0'' @ [CHR 0x0A], ''DEBUG: 0'' @ [CHR 0x0A],
      ''WARN: 0'' @ [CHR 0x0A], ''ERROR: 0'' @ [CHR 0x0A],
      ''Average Response Time: 0.01 ms'' @ [CHR 0x0A],
      ''Most frequent mesage: '' @ [CHR 0x27, CHR 0x27, CHR 0x0A]]"
    by (simp add: Print_def print_average_eq mf d0 new_report_fields average_0_01_0_02 format_0_015
        del: One_nat_def)
  show "two_decimals (arithmetic_mean (map exact_value
        [Finite False 5764607523034235 (- 59), Finite False 5764607523034235 (- 58)])) = ''0.02''"
    unfolding mean_0_01_0_02 by (rule two_decimals_mean)
qed

text \<open>
  Claim C7, amended. \<^verbatim>\<open>Print\<close> writes the five counter lines first. It then writes the
  line of the average response time if and only if there is at least one sample, and
  the number on that line is \<open>average\<close> of the samples, the \<^verbatim>\<open>float64\<close> that the loop and
  the division compute, in the format \<^verbatim>\<open>%.2f\<close>, followed by \<^verbatim>\<open> ms\<close>. Nothing else is
  written but the line of the most frequent message.

  The samples of a report that \<^verbatim>\<open>Analyze\<close> returns are \<^verbatim>\<open>float64\<close> numbers. For such
  samples, at most \<open>2\<^sup>5\<^sup>3\<close> of them, whose average is a finite number (no sample is an
  infinity or a NaN, and the sum does not overflow): the list is not empty; the average
  differs from the arithmetic mean of the samples by at most \<open>(1 + 2\<^sup>-\<^sup>5\<^sup>3)\<^sup>n\<^sup>+\<^sup>1 - 1\<close>
  times the arithmetic mean of their absolute values, plus \<open>2\<^sup>-\<^sup>1\<^sup>0\<^sup>7\<^sup>5\<close>, where \<open>n\<close> is the
  number of samples; and what is printed is the exact value of the average to two
  decimal places (after a minus sign, when the average is the negative zero).

  With the samples 100 and 200 the average is their arithmetic mean, 150, and the line
  is \<^verbatim>\<open>Average Response Time: 150.00 ms\<close>.
\<close>

theorem Print_average_line:
  "(\<exists>rest. fst (Print ks1 ks2 r) =
        [''Total Log Entries: '' @ format_d (TotalEntries r) @ [CHR 0x0A],
         ''INFO: '' @ format_d (Info r) @ [CHR 0x0A],
         ''DEBUG: '' @ format_d (Debug r) @ [CHR 0x0A],
         ''WARN: '' @ format_d (Warn r) @ [CHR 0x0A],
         ''ERROR: '' @ format_d (Error r) @ [CHR 0x0A]]
        @ (if ResponseTime r = [] then []
           else [''Average Response Time: '' @ format_f2 (average (ResponseTime r)) @ '' ms'' @ [CHR 0x0A]])
        @ rest
      \<and> (case most_frequent ks1 ks2 r of
            Inl p \<Rightarrow> rest = []
          | Inr k \<Rightarrow> rest = [''Most frequent mesage: '' @ [CHR 0x27] @ k @ [CHR 0x27, CHR 0x0A]]))
   \<and> (Analyze ul entries flt = Inr r' \<longrightarrow> (\<forall>x\<in>set (ResponseTime r'). is_float64 x))
   \<and> ((\<forall>x\<in>set xs. is_float64 x) \<and> length xs \<le> 2 ^ 53 \<and> average xs = Finite s m q \<longrightarrow>
        xs \<noteq> []
        \<and> \<bar>exact_value (average xs) - arithmetic_mean (map exact_value xs)\<bar>
            \<le> ((1 + 1 / 2 ^ 53) ^ (length xs + 1) - 1) * arithmetic_mean (map (\<lambda>x. \<bar>exact_value x\<bar>) xs)
              + 2 powi (- 1075)
        \<and> format_f2 (average xs) =
            (if s \<and> m = 0 then ''-'' else '''') @ two_decimals (exact_value (average xs)))
   \<and> exact_value (average [float64_of_int 100, float64_of_int 200]) = 150
   \<and> arithmetic_mean (map exact_value [float64_of_int 100, float64_of_int 200]) = 150
   \<and> ''Average Response Time: '' @ format_f2 (average [float64_of_int 100, float64_of_int 200]) @ '' ms''
       = ''Average Response Time: 150.00 ms''"
proof (intro conjI)
  show "\<exists>rest. fst (Print ks1 ks2 r) =
        [''Total Log Entries: '' @ format_d (TotalEntries r) @ [CHR 0x0A],
         ''INFO: '' @ format_d (Info r) @ [CHR 0x0A],
         ''DEBUG: '' @ format_d (Debug r) @ [CHR 0x0A],
         ''WARN: '' @ format_d (Warn r) @ [CHR 0x0A],
         ''ERROR: '' @ format_d (Error r) @ [CHR 0x0A]]
        @ (if ResponseTime r = [] then []
           else [''Average Response Time: '' @ format_f2 (average (ResponseTime r)) @ '' ms'' @ [CHR 0x0A]])
        @ rest
      \<and> (case most_frequent ks1 ks2 r of
            Inl p \<Rightarrow> rest = []
          | Inr k \<Rightarrow> rest = [''Most frequent mesage: '' @ [CHR 0x27] @ k @ [CHR 0x27, CHR 0x0A]])"
    by (cases "most_frequent ks1 ks2 r") (simp_all add: Print_def print_average_eq Let_def)
  show "Analyze ul entries flt = Inr r' \<longrightarrow> (\<forall>x\<in>set (ResponseTime r'). is_float64 x)"
    using Analyze_samples by blast
  show "(\<forall>x\<in>set xs. is_float64 x) \<and> length xs \<le> 2 ^ 53 \<and> average xs = Finite s m q \<longrightarrow>
        xs \<noteq> []
        \<and> \<bar>exact_value (average xs) - arithmetic_mean (map exact_value xs)\<bar>
            \<le> ((1 + 1 / 2 ^ 53) ^ (length xs + 1) - 1) * arithmetic_mean (map (\<lambda>x. \<bar>exact_value x\<bar>) xs)
              + 2 powi (- 1075)
        \<and> format_f2 (average xs) =
            (if s \<and> m = 0 then ''-'' else '''') @ two_decimals (exact_value (average xs))"
  proof
    assume h: "(\<forall>x\<in>set xs. is_float64 x) \<and> length xs \<le> 2 ^ 53 \<and> average xs = Finite s m q"
    then have ok: "\<forall>x\<in>set xs. is_float64 x" and len: "length xs \<le> 2 ^ 53"
      and fin: "average xs = Finite s m q" by simp_all
    note e = average_error [OF ok len fin]
    from e have "is_float64 (Finite s m q)" by (simp add: fin)
    then have "0 \<le> m" by simp
    then have "format_f2 (Finite s m q) =
        (if s \<and> m = 0 then ''-'' else '''') @ two_decimals (exact_value (Finite s m q))"
      by (rule format_f2_two_decimals)
    then have "format_f2 (average xs) =
        (if s \<and> m = 0 then ''-'' else '''') @ two_decimals (exact_value (average xs))"
      by (simp only: fin)
    with e show "xs \<noteq> []
        \<and> \<bar>exact_value (average xs) - arithmetic_mean (map exact_value xs)\<bar>
            \<le> ((1 + 1 / 2 ^ 53) ^ (length xs + 1) - 1) * arithmetic_mean (map (\<lambda>x. \<bar>exact_value x\<bar>) xs)
              + 2 powi (- 1075)
        \<and> format_f2 (average xs) =
            (if s \<and> m = 0 then ''-'' else '''') @ two_decimals (exact_value (average xs))"
      by blast
  qed
  show "exact_value (average [float64_of_int 100, float64_of_int 200]) = 150"
    unfolding average_100_200 by simp
  show "arithmetic_mean (map exact_value [float64_of_int 100, float64_of_int 200]) = 150"
    unfolding float64_of_int_100 float64_of_int_200 by (simp add: arithmetic_mean_def)
  show "''Average Response Time: '' @ format_f2 (average [float64_of_int 100, float64_of_int 200]) @ '' ms''
       = ''Average Response Time: 150.00 ms''"
    unfolding average_100_200 format_150 by simp
qed

theorem Print_average_line_witness:
  "fst (Print [] [] (new_report\<lparr>ResponseTime := [float64_of_int 100, float64_of_int 200]\<rparr>)) =
     [''Total Log Entries: 0'' @ [CHR 0x0A], ''INFO: 0'' @ [CHR 0x0A], ''DEBUG: 0'' @ [CHR 0x0A],
      ''WARN: 0'' @ [CHR 0x0A], ''ERROR: 0'' @ [CHR 0x0A],
      ''Average Response Time: 150.00 ms'' @ [CHR 0x0A],
      ''Most frequent mesage: '' @ [CHR 0x27, CHR 0x27, CHR 0x0A]]
   \<and> fst (Print [] [] new_report) =
     [''Total Log Entries: 0'' @ [CHR 0x0A], ''INFO: 0'' @ [CHR 0x0A], ''DEBUG: 0'' @ [CHR 0x0A],
      ''WARN: 0'' @ [CHR 0x0A], ''ERROR: 0'' @ [CHR 0x0A],
      ''Most frequent mesage: '' @ [CHR 0x27, CHR 0x27, CHR 0x0A]]
   \<and> is_float64 (Finite False 5764607523034235 (- 59))
   \<and> is_float64 (Finite False 5764607523034235 (- 58))
   \<and> length [Finite False 5764607523034235 (- 59), Finite False 5764607523034235 (- 58)] \<le> 2 ^ 53
   \<and> average [Finite False 5764607523034235 (- 59), Finite False 5764607523034235 (- 58)]
       = Finite False 8646911284551352 (- 59)
   \<and> \<bar>exact_value (Finite False 8646911284551352 (- 59)) - 17293822569102705 / 1152921504606846976\<bar>
       \<le> ((1 + 1 / 2 ^ 53) ^ 3 - 1)
           * arithmetic_mean (map (\<lambda>x. \<bar>exact_value x\<bar>)
               [Finite False 5764607523034235 (- 59), Finite False 5764607523034235 (- 58)])
         + 2 powi (- 1075)
   \<and> format_f2 (Finite False 8646911284551352 (- 59))
       = two_decimals (exact_value (Finite False 8646911284551352 (- 59)))
   \<and> (\<exists>r'. Analyze id
              [\<lparr>time = Time_zero, level = ''INFO'', message = ''request handled 123.45 ms''\<rparr>] [] = Inr r'
          \<and> ResponseTime r' = [Finite False 8687021468732621 (- 46)]
          \<and> is_float64 (Finite False 8687021468732621 (- 46)))"
proof -
  let ?xs = "[Finite False 5764607523034235 (- 59), Finite False 5764607523034235 (- 58)]"
  have d0: "format_d 0 = ''0''" by (simp add: format_d_def digits.simps digit_char_simps)
  have mf: "most_frequent [] [] r = Inr []" for r by (simp add: most_frequent_def)
  note t1 = Print_average_line [of "[]" "[]"
      "new_report\<lparr>ResponseTime := [float64_of_int 100, float64_of_int 200]\<rparr>"
      id "[]" "[]" new_report ?xs False 8646911284551352 "- 59"]
  note t2 = Print_average_line [of "[]" "[]" new_report id "[]" "[]" new_report "[]" False 0 0]
  from t1 have a: "''Average Response Time: '' @ format_f2 (average [float64_of_int 100, float64_of_int 200]) @ '' ms''
       = ''Average Response Time: 150.00 ms''" by blast
  then have a': "format_f2 (average [float64_of_int 100, float64_of_int 200]) = ''150.00''" by simp
  have p1: "fst (Print [] [] (new_report\<lparr>ResponseTime := [float64_of_int 100, float64_of_int 200]\<rparr>)) =
     [''Total Log Entries: 0'' @ [CHR 0x0A], ''INFO: 0'' @ [CHR 0x0A], ''DEBUG: 0'' @ [CHR 0x0A],
      ''WARN: 0'' @ [CHR 0x0A], ''ERROR: 0'' @ [CHR 0x0A],
      ''Average Response Time: 150.00 ms'' @ [CHR 0x0A],
      ''Most frequent mesage: '' @ [CHR 0x27, CHR 0x27, CHR 0x0A]]"
    using conjunct1 [OF t1] by (simp add: mf d0 a' new_report_fields del: One_nat_def)
  have p2: "fst (Print [] [] new_report) =
     [''Total Log Entries: 0'' @ [CHR 0x0A], ''INFO: 0'' @ [CHR 0x0A], ''DEBUG: 0'' @ [CHR 0x0A],
      ''WARN: 0'' @ [CHR 0x0A], ''ERROR: 0'' @ [CHR 0x0A],
      ''Most frequent mesage: '' @ [CHR 0x27, CHR 0x27, CHR 0x0A]]"
    using conjunct1 [OF t2] by (simp add: mf d0 new_report_fields del: One_nat_def)
  have h1: "\<forall>x\<in>set ?xs. is_float64 x" by simp
  have h2: "length ?xs \<le> 2 ^ 53" by simp
  have h3: "average ?xs = Finite False 8646911284551352 (- 59)" by (rule average_0_01_0_02)
  from t1 h1 h2 h3 have c:
    "\<bar>exact_value (average ?xs) - arithmetic_mean (map exact_value ?xs)\<bar>
       \<le> ((1 + 1 / 2 ^ 53) ^ (length ?xs + 1) - 1) * arithmetic_mean (map (\<lambda>x. \<bar>exact_value x\<bar>) ?xs)
         + 2 powi (- 1075)"
    and f: "format_f2 (average ?xs) =
       (if False \<and> (8646911284551352 :: int) = 0 then ''-'' else '''') @ two_decimals (exact_value (average ?xs))"
    by blast+
  have l: "length ?xs + 1 = 3" by simp
  have c': "\<bar>exact_value (Finite False 8646911284551352 (- 59)) - 17293822569102705 / 1152921504606846976\<bar>
       \<le> ((1 + 1 / 2 ^ 53) ^ 3 - 1) * arithmetic_mean (map (\<lambda>x. \<bar>exact_value x\<bar>) ?xs)
         + 2 powi (- 1075)"
    using c unfolding h3 mean_0_01_0_02 l .
  have f': "format_f2 (Finite False 8646911284551352 (- 59))
       = two_decimals (exact_value (Finite False 8646911284551352 (- 59)))"
    using f unfolding h3 by simp
  let ?e = "\<lparr>time = Time_zero, level = ''INFO'', message = ''request handled 123.45 ms''\<rparr>"
  from Add_Some [OF new_report_map, of id ?e] obtain r1 where
    a: "Add id new_report ?e = Inr r1"
    and rt: "ResponseTime r1 = ResponseTime (record_response_time ?e new_report)"
    by blast
  have an: "Analyze id [?e] [] = Inr r1" using a by (simp add: Analyze_def)
  have "ResponseTime (record_response_time ?e new_report) =
      ResponseTime new_report @ [Finite False 8687021468732621 (- 46)]"
    unfolding record_response_time_eq LogEntry.select_convs
    by (simp only: HasSuffix_example last_word_example ParseFloat_123_45 if_True option.case)
  with rt have rt': "ResponseTime r1 = [Finite False 8687021468732621 (- 46)]"
    by (simp add: new_report_fields)
  from Print_average_line [of "[]" "[]" new_report id "[?e]" "[]" r1 "[]" False 0 0] an
  have "\<forall>x\<in>set (ResponseTime r1). is_float64 x" by blast
  then have "is_float64 (Finite False 8687021468732621 (- 46))" unfolding rt' by simp
  with an rt' have s: "\<exists>r'. Analyze id [?e] [] = Inr r'
          \<and> ResponseTime r' = [Finite False 8687021468732621 (- 46)]
          \<and> is_float64 (Finite False 8687021468732621 (- 46))" by blast
  have i1: "is_float64 (Finite False 5764607523034235 (- 59))"
    and i2: "is_float64 (Finite False 5764607523034235 (- 58))" using h1 by simp_all
  show ?thesis using p1 p2 i1 i2 h2 h3 c' f' s by (intro conjI)
qed

section \<open>Parsing a time stamp and printing it again\<close>

text \<open>
  Claim C8 says that for every line that \<^verbatim>\<open>NewLogEntry\<close> parses, printing the time stamp
  with the same layout gives back the date and time fields of the line, character for
  character. \<^verbatim>\<open>time.Parse\<close> reads the hour with one digit or two and accepts a fractional
  second after the seconds, so the lines \<^verbatim>\<open>2024-01-01 1:00:00 INFO started ok\<close> and
  \<^verbatim>\<open>2024-01-01 10:00:00.5 INFO started ok\<close> parse without error, and their time stamps
  print as \<^verbatim>\<open>2024-01-01 01:00:00\<close> and \<^verbatim>\<open>2024-01-01 10:00:00\<close>.
\<close>

theorem Format_roundtrip_counterexample:
  "snd (NewLogEntry ''2024-01-01 1:00:00 INFO started ok'') = None
   \<and> Format (time (fst (NewLogEntry ''2024-01-01 1:00:00 INFO started ok''))) = ''2024-01-01 01:00:00''
   \<and> SplitN ''2024-01-01 1:00:00 INFO started ok'' (CHR '' '') 4 ! 0 @ '' '' @
       SplitN ''2024-01-01 1:00:00 INFO started ok'' (CHR '' '') 4 ! 1 = ''2024-01-01 1:00:00''
   \<and> Format (time (fst (NewLogEntry ''2024-01-01 1:00:00 INFO started ok''))) \<noteq>
       SplitN ''2024-01-01 1:00:00 INFO started ok'' (CHR '' '') 4 ! 0 @ '' '' @
       SplitN ''2024-01-01 1:00:00 INFO started ok'' (CHR '' '') 4 ! 1
   \<and> snd (NewLogEntry ''2024-01-01 10:00:00.5 INFO started ok'') = None
   \<and> Format (time (fst (NewLogEntry ''2024-01-01 10:00:00.5 INFO started ok''))) = ''2024-01-01 10:00:00''
   \<and> Format (time (fst (NewLogEntry ''2024-01-01 10:00:00.5 INFO started ok''))) \<noteq>
       SplitN ''2024-01-01 10:00:00.5 INFO started ok'' (CHR '' '') 4 ! 0 @ '' '' @
       SplitN ''2024-01-01 10:00:00.5 INFO started ok'' (CHR '' '') 4 ! 1"
  unfolding NewLogEntry_hour_one_digit NewLogEntry_fraction_example fields_hour_one_digit
    fields_fraction_example fst_conv snd_conv LogEntry.select_convs
    Format_hour_one_digit Format_fraction_example
  by simp

text \<open>
  Claim C8 as amended. For every line that \<^verbatim>\<open>NewLogEntry\<close> parses, printing the time stamp
  with the layout \<^verbatim>\<open>time.DateTime\<close> gives back the date and time fields of the line joined
  by one space if and only if the time field is eight characters long, that is, written
  with a two-digit hour and without a fractional second.
\<close>

theorem Format_roundtrip:
  assumes "SplitN line (CHR '' '') 4 = [d, t, l, m]" and "NewLogEntry line = (e, None)"
  shows "Format (time e) = d @ '' '' @ t \<longleftrightarrow> length t = 8"
proof -
  from assms(1) have sp: "CHR '' '' \<notin> set d" "CHR '' '' \<notin> set t"
    by (simp_all add: SplitN_4_genSplit genSplit_3_iff)
  from assms have "Parse (d @ '' '' @ t) = Some (time e)"
    by (auto simp: NewLogEntry_fields split: option.splits)
  then show ?thesis using sp by (rule Parse_Format)
qed

theorem Format_roundtrip_witness:
  "SplitN ''2024-01-01 10:00:00 INFO started ok'' (CHR '' '') 4 =
     [''2024-01-01'', ''10:00:00'', ''INFO'', ''started ok'']
   \<and> snd (NewLogEntry ''2024-01-01 10:00:00 INFO started ok'') = None
   \<and> length ''10:00:00'' = 8
   \<and> Format (time (fst (NewLogEntry ''2024-01-01 10:00:00 INFO started ok''))) =
       ''2024-01-01'' @ '' '' @ ''10:00:00''"
  using Format_roundtrip [OF SplitN_example NewLogEntry_example]
  unfolding SplitN_example NewLogEntry_example fst_conv snd_conv LogEntry.select_convs
  by simp

section \<open>\<^verbatim>\<open>ReadFile\<close>: one entry per line\<close>

text \<open>
  Claim C9. \<^verbatim>\<open>ReadFile\<close> returns exactly one entry per line read, in order: the entry
  that \<^verbatim>\<open>NewLogEntry\<close> returned for the line. For a line that fails to parse this is the
  zero-value \<^verbatim>\<open>LogEntry\<close> (zero timestamp, empty level, empty message). So the slice
  returned is empty if and only if there was no line.
\<close>

theorem ReadFile_one_entry_per_line:
  "fst (ReadFile ls) = map (\<lambda>l. fst (NewLogEntry l)) ls
   \<and> length (fst (ReadFile ls)) = length ls
   \<and> (\<forall>i < length ls. snd (NewLogEntry (ls ! i)) \<noteq> None \<longrightarrow> fst (ReadFile ls) ! i = LogEntry_zero)
   \<and> LogEntry_zero = \<lparr>time = Time_zero, level = '''', message = ''''\<rparr>
   \<and> (fst (ReadFile ls) = [] \<longleftrightarrow> ls = [])"
  by (simp add: ReadFile_def ReadFile_loop_entries NewLogEntry_error_zero LogEntry_zero_def)

theorem ReadFile_one_entry_per_line_witness:
  "fst (ReadFile [''bad line'', ''2024-01-01 10:00:00 INFO started ok'']) =
     [LogEntry_zero,
      \<lparr>time = \<lparr>Year = 2024, Month = 1, Day = 1, Hour = 10, Minute = 0, Second = 0, Nanosecond = 0\<rparr>,
       level = ''INFO'', message = ''started ok''\<rparr>]
   \<and> snd (NewLogEntry ''bad line'') \<noteq> None
   \<and> fst (ReadFile [''bad line'', ''2024-01-01 10:00:00 INFO started ok'']) ! 0 = LogEntry_zero"
  using ReadFile_one_entry_per_line [of "[''bad line'', ''2024-01-01 10:00:00 INFO started ok'']"]
  by (simp add: NewLogEntry_bad_line NewLogEntry_example)

section \<open>\<^verbatim>\<open>Print\<close>: the most frequent message\<close>

text \<open>
  Claim C10 says that \<^verbatim>\<open>Print\<close> on a report whose message-frequency map is empty (no
  \<^verbatim>\<open>Add\<close> yet) reads \<^verbatim>\<open>freqCount[len(freqCount)-1]\<close> on an empty slice, out of bounds.
  That expression stands in the body of the second \<^verbatim>\<open>range\<close> loop over the map, and an
  empty map gives that loop no iteration: on the fresh report \<^verbatim>\<open>Print\<close> does not panic.
\<close>

theorem Print_empty_map_counterexample:
  "map_keys (MsgFrequency new_report) = {}
   \<and> range_order (MsgFrequency new_report) []
   \<and> most_frequent [] [] new_report = Inr []
   \<and> snd (Print [] [] new_report) = None"
  by (simp add: new_report_def map_keys_def range_order_def most_frequent_def Print_def print_average_def)

text \<open>
  Claim C10 as amended. After an \<^verbatim>\<open>Add\<close> the message of the entry is a key of the
  message-frequency map, so a report that \<^verbatim>\<open>Analyze\<close> built from at least one entry has a
  map that is not empty. On a report whose map is not empty, whatever the order in which
  the two loops visit the keys, \<^verbatim>\<open>Print\<close> does not panic (\<^verbatim>\<open>freqCount\<close> is not empty and
  the index \<^verbatim>\<open>len(freqCount)-1\<close> is valid) and the message it selects is a key whose count
  is the largest of all. On a report whose map is empty the second loop has no iteration,
  the index expression is not evaluated, \<^verbatim>\<open>Print\<close> does not panic and the message it
  prints is the empty string.
\<close>

theorem Print_most_frequent:
  "(Add ul r0 e = Inr r1 \<longrightarrow> message e \<in> map_keys (MsgFrequency r1))
   \<and> (es \<noteq> [] \<longrightarrow>
        (\<exists>ra. Analyze ul es flt = Inr ra \<and> map_keys (MsgFrequency ra) = message ` set es \<and>
              map_keys (MsgFrequency ra) \<noteq> {}))
   \<and> (range_order (MsgFrequency r) ks1 \<and> range_order (MsgFrequency r) ks2 \<and>
       map_keys (MsgFrequency r) \<noteq> {} \<longrightarrow>
        (\<exists>k. most_frequent ks1 ks2 r = Inr k \<and> k \<in> map_keys (MsgFrequency r) \<and>
              (\<forall>k'\<in>map_keys (MsgFrequency r).
                 map_get (MsgFrequency r) k' \<le> map_get (MsgFrequency r) k)) \<and>
        snd (Print ks1 ks2 r) = None)
   \<and> (range_order (MsgFrequency r) ks1 \<and> range_order (MsgFrequency r) ks2 \<and>
       map_keys (MsgFrequency r) = {} \<longrightarrow>
        most_frequent ks1 ks2 r = Inr [] \<and> snd (Print ks1 ks2 r) = None)"
proof (intro conjI impI)
  assume "Add ul r0 e = Inr r1"
  then show "message e \<in> map_keys (MsgFrequency r1)" by (rule Add_key)
next
  assume ne: "es \<noteq> []"
  from Add_all_keys [OF new_report_map, of ul es] obtain ra m' where
    "Add_all ul new_report es = Inr ra" "MsgFrequency ra = Some m'" "dom m' = message ` set es"
    by auto
  then have "Analyze ul es flt = Inr ra \<and> map_keys (MsgFrequency ra) = message ` set es \<and>
      map_keys (MsgFrequency ra) \<noteq> {}"
    using ne by (simp add: Analyze_def Analyze_loop_Add_all map_keys_def)
  then show "\<exists>ra. Analyze ul es flt = Inr ra \<and> map_keys (MsgFrequency ra) = message ` set es \<and>
      map_keys (MsgFrequency ra) \<noteq> {}" ..
next
  assume a: "range_order (MsgFrequency r) ks1 \<and> range_order (MsgFrequency r) ks2 \<and>
       map_keys (MsgFrequency r) \<noteq> {}"
  then show "\<exists>k. most_frequent ks1 ks2 r = Inr k \<and> k \<in> map_keys (MsgFrequency r) \<and>
              (\<forall>k'\<in>map_keys (MsgFrequency r).
                 map_get (MsgFrequency r) k' \<le> map_get (MsgFrequency r) k)"
    using most_frequent_nonempty [of r ks1 ks2] by blast
  then show "snd (Print ks1 ks2 r) = None" using Print_no_panic by blast
next
  assume a: "range_order (MsgFrequency r) ks1 \<and> range_order (MsgFrequency r) ks2 \<and>
       map_keys (MsgFrequency r) = {}"
  then show e: "most_frequent ks1 ks2 r = Inr []" using most_frequent_empty [of r ks1 ks2] by blast
  then show "snd (Print ks1 ks2 r) = None" by (rule Print_no_panic)
qed

theorem Print_most_frequent_witness:
  "range_order (Some [''a'' \<mapsto> 2, ''b'' \<mapsto> 1]) [''a'', ''b'']
   \<and> range_order (Some [''a'' \<mapsto> 2, ''b'' \<mapsto> 1]) [''b'', ''a'']
   \<and> map_keys (Some [''a'' \<mapsto> 2, ''b'' \<mapsto> 1]) \<noteq> {}
   \<and> most_frequent [''a'', ''b''] [''b'', ''a''] (new_report\<lparr>MsgFrequency := Some [''a'' \<mapsto> 2, ''b'' \<mapsto> 1]\<rparr>) = Inr ''a''
   \<and> snd (Print [''a'', ''b''] [''b'', ''a''] (new_report\<lparr>MsgFrequency := Some [''a'' \<mapsto> 2, ''b'' \<mapsto> 1]\<rparr>)) = None
   \<and> (\<exists>ra. Analyze id [\<lparr>time = Time_zero, level = ''INFO'', message = ''a''\<rparr>] [] = Inr ra \<and>
             map_keys (MsgFrequency ra) = {''a''})"
proof -
  let ?m = "Some [''a'' \<mapsto> 2::int, ''b'' \<mapsto> 1]"
  let ?r = "new_report\<lparr>MsgFrequency := ?m\<rparr>"
  have o: "range_order ?m [''a'', ''b'']" "range_order ?m [''b'', ''a'']" "map_keys ?m \<noteq> {}"
    by (auto simp: range_order_def map_keys_def)
  have mf: "most_frequent [''a'', ''b''] [''b'', ''a''] ?r = Inr ''a''"
    by (simp add: most_frequent_def map_get_def)
  note t = Print_most_frequent [of id new_report "\<lparr>time = Time_zero, level = ''INFO'', message = ''a''\<rparr>" new_report
      "[\<lparr>time = Time_zero, level = ''INFO'', message = ''a''\<rparr>]" "[]" ?r "[''a'', ''b'']" "[''b'', ''a'']"]
  from t o have p: "snd (Print [''a'', ''b''] [''b'', ''a''] ?r) = None" by simp
  from t have "\<exists>ra. Analyze id [\<lparr>time = Time_zero, level = ''INFO'', message = ''a''\<rparr>] [] = Inr ra \<and>
             map_keys (MsgFrequency ra) = {''a''}"
    by auto
  with o mf p show ?thesis by simp
qed

end
